theory Spec2Isabelle
  imports Main "HOL-Library.Sublist"
begin

section \<open>Strings\<close>

text \<open>
  A Python \<open>str\<close> is modelled as a \<open>string\<close> whose characters are the code points
  below 256. On these, \<open>str.isspace\<close>, the regular expression class \<open>\s\<close> and
  \<open>str.lower\<close> are the functions below.
\<close>

definition isspace :: "char \<Rightarrow> bool" where
  "isspace c =
     (let n = (of_char c :: nat)
      in (9 \<le> n \<and> n \<le> 13) \<or> (28 \<le> n \<and> n \<le> 32) \<or> n = 133 \<or> n = 160)"

definition lower_char :: "char \<Rightarrow> char" where
  "lower_char c =
     (let n = (of_char c :: nat)
      in if (65 \<le> n \<and> n \<le> 90) \<or> (192 \<le> n \<and> n \<le> 222 \<and> n \<noteq> 215)
         then char_of (n + 32) else c)"

definition lower :: "string \<Rightarrow> string" where
  "lower s = map lower_char s"

text \<open>\<open>s.strip()\<close>: whitespace removed at both ends.\<close>

definition strip :: "string \<Rightarrow> string" where
  "strip s = rev (dropWhile isspace (rev (dropWhile isspace s)))"

text \<open>\<open>re.sub(r"\s+", " ", s)\<close>: every maximal run of whitespace becomes one space.\<close>

function collapse_ws :: "string \<Rightarrow> string" where
  "collapse_ws [] = []"
| "collapse_ws (c # cs) =
     (if isspace c then CHR '' '' # collapse_ws (dropWhile isspace cs)
      else c # collapse_ws cs)"
  by pat_completeness auto
termination
  by (relation "measure length") (auto simp: length_dropWhile_le less_Suc_eq_le)

text \<open>
  \<open>norm(s)\<close>. Its argument is a \<open>str\<close>, on which \<open>s or ""\<close> is \<open>s\<close>.
\<close>

definition norm :: "string \<Rightarrow> string" where
  "norm s = lower (strip (collapse_ws s))"

text \<open>\<open>sep.join(parts)\<close>.\<close>

fun join :: "string \<Rightarrow> string list \<Rightarrow> string" where
  "join sep [] = []"
| "join sep [x] = x"
| "join sep (x # y # zs) = x @ sep @ join sep (y # zs)"

section \<open>The keyword filter\<close>

text \<open>
  The loop over \<open>exclude_any\<close>: \<open>True\<close> when an iteration reaches \<open>return False\<close>.
  The test \<open>kw_n in hay\<close> on strings is \<open>sublist\<close>.
\<close>

fun exclude_hit :: "string \<Rightarrow> string list \<Rightarrow> bool" where
  "exclude_hit hay [] = False"
| "exclude_hit hay (kw # kws) =
     (let kw_n = norm kw
      in if kw_n \<noteq> [] \<and> sublist kw_n hay then True else exclude_hit hay kws)"

text \<open>\<open>any((kw_n := norm(kw)) and kw_n in hay for kw in include_any)\<close>.\<close>

fun include_hit :: "string \<Rightarrow> string list \<Rightarrow> bool" where
  "include_hit hay [] = False"
| "include_hit hay (kw # kws) =
     (let kw_n = norm kw
      in if kw_n \<noteq> [] \<and> sublist kw_n hay then True else include_hit hay kws)"

text \<open>
  \<open>passes_filters\<close>. The keyword lists are lists of \<open>str\<close>, on which \<open>xs or []\<close> is
  \<open>xs\<close>.
\<close>

definition passes_filters :: "string \<Rightarrow> string \<Rightarrow> string list \<Rightarrow> string list \<Rightarrow> bool" where
  "passes_filters title summary include_any exclude_any =
     (let hay = norm title @ '' '' @ norm summary
      in if exclude_hit hay exclude_any then False
         else if include_any = [] then True
         else include_hit hay include_any)"

section \<open>Python values and feed entries\<close>

text \<open>
  The values an entry holds: \<open>None\<close>, a \<open>str\<close>, or a tuple of integers (a parsed
  time such as \<open>(2024, 5, 17, 8, 30, 0, 4, 138, 0)\<close>). An entry is a dictionary from
  field names to values.
\<close>

datatype pyval = PNone | PStr string | PTuple "int list"

type_synonym entry = "string \<rightharpoonup> pyval"

function show_nat :: "nat \<Rightarrow> string" where
  "show_nat n =
     (if n < 10 then [char_of (48 + n)]
      else show_nat (n div 10) @ [char_of (48 + n mod 10)])"
  by pat_completeness auto
termination
  by (relation "measure id") auto

declare show_nat.simps [simp del]

definition show_int :: "int \<Rightarrow> string" where
  "show_int i = (if i < 0 then ''-'' @ show_nat (nat (- i)) else show_nat (nat i))"

text \<open>\<open>str(v)\<close>.\<close>

fun py_str :: "pyval \<Rightarrow> string" where
  "py_str PNone = ''None''"
| "py_str (PStr s) = s"
| "py_str (PTuple []) = ''()''"
| "py_str (PTuple [x]) = ''('' @ show_int x @ '',)''"
| "py_str (PTuple xs) = ''('' @ join '', '' (map show_int xs) @ '')''"

text \<open>The truth value of \<open>v\<close> in \<open>if v\<close> and \<open>v or w\<close>.\<close>

fun truthy :: "pyval \<Rightarrow> bool" where
  "truthy PNone = False"
| "truthy (PStr s) = (s \<noteq> [])"
| "truthy (PTuple xs) = (xs \<noteq> [])"

definition py_or :: "pyval \<Rightarrow> pyval \<Rightarrow> pyval" where
  "py_or v w = (if truthy v then v else w)"

text \<open>\<open>d.get(k, default)\<close>.\<close>

definition dict_get :: "entry \<Rightarrow> string \<Rightarrow> pyval \<Rightarrow> pyval" where
  "dict_get d k dflt = (case d k of None \<Rightarrow> dflt | Some v \<Rightarrow> v)"

section \<open>Entry identity\<close>

text \<open>
  \<open>make_entry_key\<close>. The two library calls are parameters: \<open>digest raw\<close> stands for
  \<open>hashlib.sha256(raw.encode("utf-8")).hexdigest()\<close> and \<open>dumps entry\<close> for
  \<open>json.dumps(entry, sort_keys=True, ensure_ascii=False)\<close>.
\<close>

definition identity_fields :: "string list" where
  "identity_fields = [''id'', ''guid'', ''link'', ''title'', ''published'', ''updated'']"

definition entry_parts :: "entry \<Rightarrow> string list" where
  "entry_parts e = map (\<lambda>k. py_str (dict_get e k (PStr []))) identity_fields"

definition joined_parts :: "entry \<Rightarrow> string" where
  "joined_parts e = strip (join ''||'' (entry_parts e))"

definition hash_input :: "(entry \<Rightarrow> string) \<Rightarrow> entry \<Rightarrow> string" where
  "hash_input dumps e =
     (let raw = joined_parts e
      in if raw = [] then take 500 (dumps e) else raw)"

definition make_entry_key :: "(string \<Rightarrow> string) \<Rightarrow> (entry \<Rightarrow> string) \<Rightarrow> entry \<Rightarrow> string" where
  "make_entry_key digest dumps e = digest (hash_input dumps e)"

section \<open>Message text\<close>

text \<open>
  The two pictographs of \<open>build_message\<close> lie outside the code points below 256; each
  is written as the four bytes of its UTF-8 form, none of which is a whitespace
  character.
\<close>

definition newspaper_sign :: string where
  "newspaper_sign = [CHR 0xF0, CHR 0x9F, CHR 0x93, CHR 0xB0]"

definition clock_sign :: string where
  "clock_sign = [CHR 0xF0, CHR 0x9F, CHR 0x95, CHR 0x92]"

definition build_message :: "string \<Rightarrow> string \<Rightarrow> string \<Rightarrow> string \<Rightarrow> string" where
  "build_message feed_name title link published =
     (let bits = [newspaper_sign @ '' '' @ feed_name, strip title];
          bits = (if published \<noteq> [] then bits @ [clock_sign @ '' '' @ published] else bits);
          bits = (if link \<noteq> [] then bits @ [strip link] else bits)
      in strip (join [CHR 0x0A] bits))"

section \<open>Publication time\<close>

record datetime =
  dt_year :: int
  dt_month :: int
  dt_day :: int
  dt_hour :: int
  dt_minute :: int
  dt_second :: int

definition is_leap :: "int \<Rightarrow> bool" where
  "is_leap y = (y mod 4 = 0 \<and> (y mod 100 \<noteq> 0 \<or> y mod 400 = 0))"

definition days_in_month :: "int \<Rightarrow> int \<Rightarrow> int" where
  "days_in_month y m =
     (if m = 2 then (if is_leap y then 29 else 28)
      else if m = 4 \<or> m = 6 \<or> m = 9 \<or> m = 11 then 30 else 31)"

text \<open>
  \<open>datetime(*args)\<close> on at most six integers: \<open>None\<close> where the constructor raises
  (fewer than three arguments, or a field out of range).
\<close>

definition arg_or_zero :: "int list \<Rightarrow> nat \<Rightarrow> int" where
  "arg_or_zero args i = (if i < length args then args ! i else 0)"

definition py_datetime :: "int list \<Rightarrow> datetime option" where
  "py_datetime args =
     (if length args < 3 then None
      else
        let y = args ! 0; m = args ! 1; d = args ! 2;
            hh = arg_or_zero args 3; mm = arg_or_zero args 4; ss = arg_or_zero args 5
        in if 1 \<le> y \<and> y \<le> 9999 \<and> 1 \<le> m \<and> m \<le> 12 \<and> 1 \<le> d \<and> d \<le> days_in_month y m
              \<and> 0 \<le> hh \<and> hh \<le> 23 \<and> 0 \<le> mm \<and> mm \<le> 59 \<and> 0 \<le> ss \<and> ss \<le> 59
           then Some \<lparr>dt_year = y, dt_month = m, dt_day = d,
                      dt_hour = hh, dt_minute = mm, dt_second = ss\<rparr>
           else None)"

definition pad2 :: "int \<Rightarrow> string" where
  "pad2 i = (if i < 10 then ''0'' @ show_int i else show_int i)"

text \<open>
  \<open>dt.strftime("%d.%m.%Y %H:%M")\<close>. The C library of Linux writes the year of \<open>%Y\<close>
  without leading zeros, so a year below 1000 takes fewer than four digits.
\<close>

definition strftime :: "datetime \<Rightarrow> string" where
  "strftime dt =
     pad2 (dt_day dt) @ ''.'' @ pad2 (dt_month dt) @ ''.'' @ show_int (dt_year dt)
       @ '' '' @ pad2 (dt_hour dt) @ '':'' @ pad2 (dt_minute dt)"

text \<open>
  The body of the \<open>try\<close> for a true value \<open>t\<close>:
  \<open>datetime(*t[:6]).strftime(...)\<close>, \<open>None\<close> where it raises. The characters of a
  string are no integers, so a string always raises.
\<close>

fun render_parsed :: "pyval \<Rightarrow> string option" where
  "render_parsed (PTuple t) = map_option strftime (py_datetime (take 6 t))"
| "render_parsed (PStr s) = None"
| "render_parsed PNone = None"

text \<open>The loop over the two parsed keys: \<open>Some s\<close> when an iteration returns \<open>s\<close>.\<close>

fun parsed_loop :: "entry \<Rightarrow> string list \<Rightarrow> string option" where
  "parsed_loop e [] = None"
| "parsed_loop e (key # keys) =
     (case e key of
        None \<Rightarrow> parsed_loop e keys
      | Some t \<Rightarrow>
          if truthy t
          then (case render_parsed t of Some s \<Rightarrow> Some s | None \<Rightarrow> parsed_loop e keys)
          else parsed_loop e keys)"

definition format_published :: "entry \<Rightarrow> string" where
  "format_published e =
     (case parsed_loop e [''published_parsed'', ''updated_parsed''] of
        Some s \<Rightarrow> s
      | None \<Rightarrow>
          strip (py_str (py_or (dict_get e ''published'' (dict_get e ''updated'' (PStr [])))
                               (PStr []))))"

section \<open>The run\<close>

text \<open>
  A feed descriptor of \<open>config.json\<close>; a field is \<open>None\<close> when the key is absent,
  and the accessors supply the defaults of \<open>f.get(key, default)\<close>.
\<close>

record feed =
  f_name :: "string option"
  f_url :: "string option"
  f_include_any :: "string list option"
  f_exclude_any :: "string list option"
  f_max_items :: "int option"

definition feed_name :: "feed \<Rightarrow> string" where
  "feed_name f = (case f_name f of None \<Rightarrow> ''Feed'' | Some n \<Rightarrow> n)"

definition feed_url :: "feed \<Rightarrow> string" where
  "feed_url f = strip (case f_url f of None \<Rightarrow> [] | Some u \<Rightarrow> u)"

definition feed_include :: "feed \<Rightarrow> string list" where
  "feed_include f = (case f_include_any f of None \<Rightarrow> [] | Some ks \<Rightarrow> ks)"

definition feed_exclude :: "feed \<Rightarrow> string list" where
  "feed_exclude f = (case f_exclude_any f of None \<Rightarrow> [] | Some ks \<Rightarrow> ks)"

definition feed_max_items :: "feed \<Rightarrow> int" where
  "feed_max_items f = (case f_max_items f of None \<Rightarrow> 30 | Some n \<Rightarrow> n)"

text \<open>The slices \<open>xs[:n]\<close> (a negative \<open>n\<close> counts from the end) and \<open>xs[-400:]\<close>.\<close>

definition slice_to :: "int \<Rightarrow> 'a list \<Rightarrow> 'a list" where
  "slice_to n xs = (if 0 \<le> n then take (nat n) xs else take (length xs - nat (- n)) xs)"

definition last_400 :: "'a list \<Rightarrow> 'a list" where
  "last_400 xs = drop (length xs - 400) xs"

text \<open>What \<open>feedparser.parse(url)\<close> returns: the \<open>bozo\<close> flag and the entries.\<close>

record parsed_feed =
  bozo :: bool
  entries :: "entry list"

text \<open>A \<open>sendMessage\<close> request handed to \<open>requests.post\<close>.\<close>

record request =
  req_url :: string
  req_chat_id :: string
  req_text :: string

datatype error = MissingCredentials | DeliveryFailed

text \<open>
  What a run reads from outside and cannot change: the two library functions of
  \<open>make_entry_key\<close>, the feed transport, the two environment variables (\<open>[]\<close> when
  unset), whether the \<open>n\<close>-th request ever issued is answered with success, and the
  order in which \<open>list(s)\<close> yields a set of strings. A Python set is represented by
  a duplicate-free list of its elements.
\<close>

record env =
  digest :: "string \<Rightarrow> string"
  dumps :: "entry \<Rightarrow> string"
  fetch :: "string \<Rightarrow> parsed_feed"
  bot_token :: string
  chat_id :: string
  post_ok :: "nat \<Rightarrow> bool"
  set_order :: "string list \<Rightarrow> string list"

text \<open>
  What a run can change: the \<open>seen\<close> dictionary of \<open>state.json\<close> (\<open>None\<close> while the
  file does not exist), the requests issued so far, the lines printed, and the number
  of times \<open>save_json\<close> ran.
\<close>

record world =
  state_file :: "(string \<rightharpoonup> string list) option"
  posts :: "request list"
  stdout :: "string list"
  writes :: nat

text \<open>The variables of \<open>main\<close>, and those of one feed's iteration around them.\<close>

record run_state =
  seen_map :: "string \<rightharpoonup> string list"
  changed :: bool
  sent :: nat
  world :: world

record feed_state =
  seen_hashes :: "string list"
  new_hashes :: "string list"
  run :: run_state

text \<open>
  \<open>telegram_send\<close>: \<open>Inl\<close> carries the exception raised and the world it leaves.
\<close>

definition telegram_send :: "env \<Rightarrow> string \<Rightarrow> world \<Rightarrow> (error \<times> world) + world" where
  "telegram_send en text w =
     (let token = strip (bot_token en); chat = strip (chat_id en)
      in if token = [] \<or> chat = [] then Inl (MissingCredentials, w)
         else
           let url = ''https://api.telegram.org/bot'' @ token @ ''/sendMessage'';
               w' = w\<lparr>posts := posts w @ [\<lparr>req_url = url, req_chat_id = chat, req_text = text\<rparr>]\<rparr>
           in if post_ok en (length (posts w)) then Inr w' else Inl (DeliveryFailed, w'))"

definition entry_title :: "entry \<Rightarrow> string" where
  "entry_title e = strip (py_str (py_or (dict_get e ''title'' (PStr [])) (PStr [])))"

definition entry_summary :: "entry \<Rightarrow> string" where
  "entry_summary e =
     strip (py_str (py_or (dict_get e ''summary'' (dict_get e ''description'' (PStr [])))
                          (PStr [])))"

definition entry_link :: "entry \<Rightarrow> string" where
  "entry_link e = strip (py_str (py_or (dict_get e ''link'' (PStr [])) (PStr [])))"

definition entry_key :: "env \<Rightarrow> entry \<Rightarrow> string" where
  "entry_key en e = make_entry_key (digest en) (dumps en) e"

definition entry_passes :: "feed \<Rightarrow> entry \<Rightarrow> bool" where
  "entry_passes f e =
     passes_filters (entry_title e) (entry_summary e) (feed_include f) (feed_exclude f)"

definition entry_message :: "feed \<Rightarrow> entry \<Rightarrow> string" where
  "entry_message f e =
     build_message (feed_name f)
       (if entry_title e = [] then ''(ohne Titel)'' else entry_title e)
       (entry_link e) (format_published e)"

text \<open>The body of the loop over a feed's entries.\<close>

definition process_entry :: "env \<Rightarrow> feed \<Rightarrow> entry \<Rightarrow> feed_state \<Rightarrow> (error \<times> world) + feed_state" where
  "process_entry en f e fs =
     (let key = entry_key en e
      in if key \<in> set (seen_hashes fs) then Inr fs
         else
           case (if entry_passes f e
                 then (case telegram_send en (entry_message f e) (world (run fs)) of
                         Inl x \<Rightarrow> Inl x
                       | Inr w' \<Rightarrow> Inr ((run fs)\<lparr>sent := sent (run fs) + 1, world := w'\<rparr>))
                 else Inr (run fs)) of
             Inl x \<Rightarrow> Inl x
           | Inr r \<Rightarrow>
               Inr (fs\<lparr>seen_hashes := seen_hashes fs @ [key],
                        new_hashes := new_hashes fs @ [key], run := r\<rparr>))"

fun entry_loop :: "env \<Rightarrow> feed \<Rightarrow> entry list \<Rightarrow> feed_state \<Rightarrow> (error \<times> world) + feed_state" where
  "entry_loop en f [] fs = Inr fs"
| "entry_loop en f (e # es) fs =
     (case process_entry en f e fs of
        Inl x \<Rightarrow> Inl x
      | Inr fs' \<Rightarrow> entry_loop en f es fs')"

text \<open>\<open>seen_map.get(url, [])\<close>.\<close>

definition stored :: "(string \<rightharpoonup> string list) \<Rightarrow> string \<Rightarrow> string list" where
  "stored m url = (case m url of None \<Rightarrow> [] | Some hs \<Rightarrow> hs)"

text \<open>The variables of a feed's iteration before its first entry.\<close>

definition feed_start :: "run_state \<Rightarrow> string \<Rightarrow> feed_state" where
  "feed_start st url =
     \<lparr>seen_hashes = remdups (stored (seen_map st) url), new_hashes = [], run = st\<rparr>"

definition bozo_warning :: "string \<Rightarrow> string" where
  "bozo_warning url = ''Warnung: Feed-Parsing-Problem bei '' @ url"

text \<open>The body of the loop over the feeds.\<close>

definition process_feed :: "env \<Rightarrow> feed \<Rightarrow> run_state \<Rightarrow> (error \<times> world) + run_state" where
  "process_feed en f st =
     (let url = feed_url f
      in if url = [] then Inr st
         else
           let parsed = fetch en url
           in if bozo parsed
              then Inr (st\<lparr>world := (world st)\<lparr>stdout := stdout (world st) @ [bozo_warning url]\<rparr>\<rparr>)
              else
                case entry_loop en f (slice_to (feed_max_items f) (entries parsed))
                       (feed_start st url) of
                  Inl x \<Rightarrow> Inl x
                | Inr fs \<Rightarrow>
                    if new_hashes fs \<noteq> []
                    then Inr ((run fs)\<lparr>seen_map := (seen_map (run fs))
                                          (url \<mapsto> last_400 (set_order en (seen_hashes fs))),
                                      changed := True\<rparr>)
                    else Inr (run fs))"

fun feed_loop :: "env \<Rightarrow> feed list \<Rightarrow> run_state \<Rightarrow> (error \<times> world) + run_state" where
  "feed_loop en [] st = Inr st"
| "feed_loop en (f # fs) st =
     (case process_feed en f st of
        Inl x \<Rightarrow> Inl x
      | Inr st' \<Rightarrow> feed_loop en fs st')"

text \<open>
  \<open>state.get("seen", {})\<close> for the state loaded from \<open>state.json\<close>, and the
  variables of \<open>main\<close> before the first feed.
\<close>

definition load_seen :: "world \<Rightarrow> (string \<rightharpoonup> string list)" where
  "load_seen w = (case state_file w of None \<Rightarrow> Map.empty | Some m \<Rightarrow> m)"

definition run_start :: "world \<Rightarrow> run_state" where
  "run_start w = \<lparr>seen_map = load_seen w, changed = False, sent = 0, world = w\<rparr>"

text \<open>
  \<open>main\<close> on the feeds of \<open>config.json\<close>: \<open>Inr\<close> carries the value returned, \<open>Inl\<close>
  the exception that leaves it, both with the world left behind.
\<close>

definition main :: "env \<Rightarrow> feed list \<Rightarrow> world \<Rightarrow> (error \<times> world) + (int \<times> world)" where
  "main en feeds w =
     (if feeds = []
      then Inr (1, w\<lparr>stdout := stdout w @ [''Keine Feeds in config.json gefunden.'']\<rparr>)
      else
        case feed_loop en feeds (run_start w) of
          Inl x \<Rightarrow> Inl x
        | Inr st \<Rightarrow>
            let w1 = (if changed st
                      then (world st)\<lparr>state_file := Some (seen_map st),
                                       writes := writes (world st) + 1\<rparr>
                      else world st)
            in Inr (0, w1\<lparr>stdout := stdout w1
                              @ [''Done. Sent '' @ show_nat (sent st) @ '' messages.'']\<rparr>))"

section \<open>Inputs used in the examples\<close>

text \<open>
  An entry's identity fields are \<^emph>\<open>plain\<close> when none of the six strings holds a
  vertical bar, the first does not start and the last does not end with whitespace.
\<close>

definition plain_fields :: "entry \<Rightarrow> bool" where
  "plain_fields e =
     ((\<forall>p\<in>set (entry_parts e). CHR ''|'' \<notin> set p)
      \<and> (hd (entry_parts e) = [] \<or> \<not> isspace (hd (hd (entry_parts e))))
      \<and> (last (entry_parts e) = [] \<or> \<not> isspace (last (last (entry_parts e)))))"

definition c1_entry_a :: entry where
  "c1_entry_a = [''summary'' \<mapsto> PStr ''first'']"

definition c1_entry_b :: entry where
  "c1_entry_b = [''summary'' \<mapsto> PStr ''second'']"

definition c2_entry_a :: entry where
  "c2_entry_a = [''id'' \<mapsto> PStr ''a|'']"

definition c2_entry_b :: entry where
  "c2_entry_b = [''id'' \<mapsto> PStr ''a'', ''guid'' \<mapsto> PStr ''|'']"

definition c2_entry_c :: entry where
  "c2_entry_c = [''id'' \<mapsto> PStr ''a'', ''title'' \<mapsto> PStr ''x'']"

definition c2_entry_d :: entry where
  "c2_entry_d = [''id'' \<mapsto> PStr ''a'', ''title'' \<mapsto> PStr ''y'']"

definition c2_entry_e :: entry where
  "c2_entry_e = [''id'' \<mapsto> PStr ''a'', ''title'' \<mapsto> PStr ''x'', ''summary'' \<mapsto> PStr ''s'']"

section \<open>Notions of the specification\<close>

text \<open>
  Decimal digits, a number on two and on four of them, and a year from 1 to 9999
  without leading zeros.
\<close>

definition digit :: "nat \<Rightarrow> char" where
  "digit n = char_of (48 + n)"

definition two_digits :: "int \<Rightarrow> string" where
  "two_digits i = [digit (nat i div 10), digit (nat i mod 10)]"

definition four_digits :: "int \<Rightarrow> string" where
  "four_digits i =
     [digit (nat i div 1000), digit (nat i div 100 mod 10), digit (nat i div 10 mod 10),
      digit (nat i mod 10)]"

definition year_digits :: "int \<Rightarrow> string" where
  "year_digits i =
     (if i < 10 then [digit (nat i)]
      else if i < 100 then [digit (nat i div 10), digit (nat i mod 10)]
      else if i < 1000
        then [digit (nat i div 100), digit (nat i div 10 mod 10), digit (nat i mod 10)]
      else four_digits i)"

text \<open>
  What the specification calls the parsed time tuple under a key, rendered: the value
  under the key when it is present, true and renders.
\<close>

definition parsed_rendering :: "entry \<Rightarrow> string \<Rightarrow> string option" where
  "parsed_rendering e k =
     (case e k of None \<Rightarrow> None | Some t \<Rightarrow> if truthy t then render_parsed t else None)"

text \<open>
  The raw value: that of \<open>published\<close> when the key exists, else that of
  \<open>updated\<close> when that key exists, else the empty string.
\<close>

definition raw_published :: "entry \<Rightarrow> pyval" where
  "raw_published e =
     (case e ''published'' of
        Some v \<Rightarrow> v
      | None \<Rightarrow> (case e ''updated'' of Some v \<Rightarrow> v | None \<Rightarrow> PStr []))"

definition c9_entry :: entry where
  "c9_entry = [''published_parsed'' \<mapsto> PTuple [2024, 2, 30, 8, 5, 0, 4, 61, 0],
               ''updated_parsed'' \<mapsto> PTuple [2024, 3, 1, 18, 45, 9, 4, 61, 0],
               ''published'' \<mapsto> PStr '' Fri, 01 Mar 2024 '']"

definition c9_entry_early :: entry where
  "c9_entry_early = [''published_parsed'' \<mapsto> PTuple [999, 1, 2, 3, 4, 5, 2, 2, 0]]"

definition c9_entry_raw :: entry where
  "c9_entry_raw = [''published_parsed'' \<mapsto> PNone, ''updated'' \<mapsto> PStr '' yesterday '']"

definition c10_entry :: entry where
  "c10_entry = [''title'' \<mapsto> PStr ''Weekly Digest'', ''description'' \<mapsto> PStr '' planned outage '']"

definition c10_feed :: feed where
  "c10_feed = \<lparr>f_name = None, f_url = Some ''u'', f_include_any = Some [''outage''],
               f_exclude_any = None, f_max_items = None\<rparr>"

section \<open>Notions used in the properties of a run\<close>

text \<open>
  The credentials are missing when a stripped variable is empty; \<open>feed_entries\<close> are
  the entries a feed's iteration loops over; a feed is skipped when its URL is empty or
  its fetch result is flagged; \<open>warned\<close> is the run state after the warning line
  for a flagged feed has been printed.
\<close>

definition creds_missing :: "env \<Rightarrow> bool" where
  "creds_missing en = (strip (bot_token en) = [] \<or> strip (chat_id en) = [])"

definition feed_entries :: "env \<Rightarrow> feed \<Rightarrow> entry list" where
  "feed_entries en f = slice_to (feed_max_items f) (entries (fetch en (feed_url f)))"

definition skipped :: "env \<Rightarrow> feed \<Rightarrow> bool" where
  "skipped en f = (feed_url f = [] \<or> bozo (fetch en (feed_url f)))"

definition warned :: "run_state \<Rightarrow> string \<Rightarrow> run_state" where
  "warned st url =
     st\<lparr>world := (world st)\<lparr>stdout := stdout (world st)
                                    @ [''Warnung: Feed-Parsing-Problem bei '' @ url]\<rparr>\<rparr>"

text \<open>Environments, a feed and a world for the examples.\<close>

definition outage_entry :: entry where
  "outage_entry = [''title'' \<mapsto> PStr ''Outage'']"

definition plain_env :: env where
  "plain_env =
     \<lparr>digest = (\<lambda>s. s), dumps = (\<lambda>e. []),
      fetch = (\<lambda>u. \<lparr>bozo = False, entries = [outage_entry]\<rparr>),
      bot_token = ''T'', chat_id = ''C'', post_ok = (\<lambda>n. True), set_order = (\<lambda>xs. xs)\<rparr>"

definition plain_feed :: feed where
  "plain_feed = \<lparr>f_name = None, f_url = Some ''u'', f_include_any = None,
                 f_exclude_any = None, f_max_items = None\<rparr>"

definition empty_world :: world where
  "empty_world = \<lparr>state_file = None, posts = [], stdout = [], writes = 0\<rparr>"

definition no_creds_env :: env where
  "no_creds_env = plain_env\<lparr>bot_token := '' ''\<rparr>"

definition refusing_env :: env where
  "refusing_env = plain_env\<lparr>post_ok := (\<lambda>n. False)\<rparr>"

definition bozo_env :: env where
  "bozo_env = plain_env\<lparr>fetch := (\<lambda>u. \<lparr>bozo = True, entries = [outage_entry]\<rparr>)\<rparr>"

section \<open>Notions used for two runs\<close>

text \<open>
  \<open>list(s)\<close> yields every element of the set once; the identities \<open>looped\<close> over
  for a URL are those of the entries that the iterations of the feeds with this URL
  loop over; the identities \<open>known\<close> for a URL are those stored for it and those
  looped over for it, and a run \<open>fits\<close> when every feed that is not skipped has at
  most 400 of them; two environments have the \<open>same_feeds\<close> when
  they agree on the feed transport and on the two library functions of the key; a feed
  is \<open>all_seen\<close> by a dictionary when it is skipped or every entry of its iteration
  is stored for its URL.
\<close>

definition lists_sets :: "env \<Rightarrow> bool" where
  "lists_sets en =
     (\<forall>xs. distinct xs \<longrightarrow> distinct (set_order en xs) \<and> set (set_order en xs) = set xs)"

definition looped :: "env \<Rightarrow> feed list \<Rightarrow> string \<Rightarrow> string list" where
  "looped en feeds url =
     concat (map (\<lambda>f. map (entry_key en) (feed_entries en f))
               (filter (\<lambda>f. feed_url f = url \<and> \<not> skipped en f) feeds))"

definition known :: "env \<Rightarrow> feed list \<Rightarrow> (string \<rightharpoonup> string list) \<Rightarrow> string \<Rightarrow> string list" where
  "known en feeds m url = remdups (stored m url @ looped en feeds url)"

definition fits :: "env \<Rightarrow> feed list \<Rightarrow> (string \<rightharpoonup> string list) \<Rightarrow> bool" where
  "fits en feeds m =
     (\<forall>f\<in>set feeds. \<not> skipped en f \<longrightarrow> length (known en feeds m (feed_url f)) \<le> 400)"

definition same_feeds :: "env \<Rightarrow> env \<Rightarrow> bool" where
  "same_feeds en en' = (digest en' = digest en \<and> dumps en' = dumps en \<and> fetch en' = fetch en)"

definition all_seen :: "env \<Rightarrow> (string \<rightharpoonup> string list) \<Rightarrow> feed \<Rightarrow> bool" where
  "all_seen en m f =
     (skipped en f \<or> entry_key en ` set (feed_entries en f) \<subseteq> set (stored m (feed_url f)))"

text \<open>The worlds left by the runs of the examples.\<close>

definition plain_world1 :: world where
  "plain_world1 =
     \<lparr>state_file = Some [''u'' \<mapsto> [entry_key plain_env outage_entry]],
      posts = [\<lparr>req_url = ''https://api.telegram.org/botT/sendMessage'', req_chat_id = ''C'',
                req_text = entry_message plain_feed outage_entry\<rparr>],
      stdout = [''Done. Sent 1 messages.''],
      writes = 1\<rparr>"

definition picky_feed :: feed where
  "picky_feed = plain_feed\<lparr>f_include_any := Some [''sports'']\<rparr>"

section \<open>Notions used for runs that deliver\<close>

text \<open>
  The identities that a loop over entries with the given identities records, starting
  from the seen ones; the number of entries it dispatches; and an environment that
  \<open>delivers\<close>: the credentials are there and every request succeeds.
\<close>

fun fresh :: "string list \<Rightarrow> string list \<Rightarrow> string list" where
  "fresh seen [] = []"
| "fresh seen (k # ks) =
     (if k \<in> set seen then fresh seen ks else k # fresh (seen @ [k]) ks)"

fun sends :: "env \<Rightarrow> feed \<Rightarrow> string list \<Rightarrow> entry list \<Rightarrow> nat" where
  "sends en f seen [] = 0"
| "sends en f seen (e # es) =
     (if entry_key en e \<in> set seen then sends en f seen es
      else (if entry_passes f e then 1 else 0) + sends en f (seen @ [entry_key en e]) es)"

definition delivers :: "env \<Rightarrow> bool" where
  "delivers en = (\<not> creds_missing en \<and> (\<forall>n. post_ok en n))"

text \<open>
  A feed of 401 entries with the identifiers \<open>""\<close>, \<open>"x"\<close>, \<open>"xx"\<close>, ..., their
  keys under the environment \<open>big_env\<close>, and two feed descriptors that take up to 500
  entries: one without keywords and one with an include keyword.
\<close>

definition big_entry :: "nat \<Rightarrow> entry" where
  "big_entry i = [''id'' \<mapsto> PStr (replicate i CHR ''x'')]"

definition big_key :: "nat \<Rightarrow> string" where
  "big_key i = replicate i CHR ''x'' @ ''||||||||||''"

definition big_env :: env where
  "big_env = plain_env\<lparr>fetch := (\<lambda>u. \<lparr>bozo = False, entries = map big_entry [0..<401]\<rparr>)\<rparr>"

definition open_feed :: feed where
  "open_feed = plain_feed\<lparr>f_max_items := Some 500\<rparr>"

definition shut_feed :: feed where
  "shut_feed = open_feed\<lparr>f_include_any := Some [''sports'']\<rparr>"

section \<open>Strings: stripping and joining\<close>

lemma dropWhile_id: "xs = [] \<or> \<not> P (hd xs) \<Longrightarrow> dropWhile P xs = xs"
  by (cases xs) auto

lemma strip_eq_Nil: "strip s = [] \<longleftrightarrow> (\<forall>c\<in>set s. isspace c)"
proof
  assume "strip s = []"
  then have "\<forall>c\<in>set (dropWhile isspace s). isspace c"
    by (simp add: strip_def)
  then have "dropWhile isspace s = []"
    using hd_dropWhile [of isspace s] by (cases "dropWhile isspace s") auto
  then show "\<forall>c\<in>set s. isspace c"
    by simp
next
  assume "\<forall>c\<in>set s. isspace c"
  then show "strip s = []"
    by (auto simp: strip_def dest: set_dropWhileD)
qed

lemma strip_id: "s = [] \<or> (\<not> isspace (hd s) \<and> \<not> isspace (last s)) \<Longrightarrow> strip s = s"
proof -
  assume a: "s = [] \<or> (\<not> isspace (hd s) \<and> \<not> isspace (last s))"
  have 1: "dropWhile isspace s = s"
    using a by (intro dropWhile_id) blast
  have "rev s = [] \<or> \<not> isspace (hd (rev s))"
    using a by (cases "s = []") (simp_all add: hd_rev)
  then have 2: "dropWhile isspace (rev s) = rev s"
    by (rule dropWhile_id)
  show ?thesis
    unfolding strip_def 1 2 by simp
qed

lemma bar_not_space: "\<not> isspace CHR ''|''"
  by (simp add: isspace_def)

lemma append_bar_inj:
  "CHR ''|'' \<notin> set a \<Longrightarrow> CHR ''|'' \<notin> set b \<Longrightarrow> a @ CHR ''|'' # xs = b @ CHR ''|'' # ys
     \<Longrightarrow> a = b \<and> xs = ys"
proof (induction a arbitrary: b)
  case Nil
  then show ?case by (cases b) auto
next
  case (Cons c a)
  then show ?case by (cases b) auto
qed

lemma join_Cons_Cons: "join sep (x # y # zs) = x @ sep @ join sep (y # zs)"
  by simp

lemma join_bars_inj:
  "length ps = length qs \<Longrightarrow> \<forall>p\<in>set ps. CHR ''|'' \<notin> set p \<Longrightarrow> \<forall>q\<in>set qs. CHR ''|'' \<notin> set q
     \<Longrightarrow> join ''||'' ps = join ''||'' qs \<Longrightarrow> ps = qs"
proof (induction ps qs rule: list_induct2)
  case Nil
  then show ?case by simp
next
  case step: (Cons p ps q qs)
  have p: "CHR ''|'' \<notin> set p" and q: "CHR ''|'' \<notin> set q"
    using step.prems(1,2) by simp_all
  show ?case
  proof (cases ps)
    case Nil
    then have "qs = []" using step.hyps by simp
    with Nil step.prems(3) show ?thesis by simp
  next
    case (Cons p' ps')
    then obtain q' qs' where qs: "qs = q' # qs'"
      using step.hyps by (cases qs) simp_all
    have "p @ CHR ''|'' # (CHR ''|'' # join ''||'' ps) = q @ CHR ''|'' # (CHR ''|'' # join ''||'' qs)"
      using step.prems(3) unfolding Cons qs join_Cons_Cons by simp
    then have "p = q \<and> CHR ''|'' # join ''||'' ps = CHR ''|'' # join ''||'' qs"
      by (rule append_bar_inj [OF p q])
    moreover have "\<forall>p\<in>set ps. CHR ''|'' \<notin> set p" "\<forall>q\<in>set qs. CHR ''|'' \<notin> set q"
      using step.prems(1,2) by simp_all
    ultimately show ?thesis using step.IH by simp
  qed
qed

section \<open>The keyword filter\<close>





section \<open>Entry identity\<close>

lemma joined_parts_nonempty: "joined_parts e \<noteq> []"
proof -
  have "CHR ''|'' \<in> set (join ''||'' (entry_parts e))"
    by (simp add: entry_parts_def identity_fields_def)
  then show ?thesis
    unfolding joined_parts_def strip_eq_Nil using bar_not_space by blast
qed

text \<open>The serialisation is never the hash input: the joined string always holds the separators.\<close>

lemma hash_input_joined: "hash_input dm e = joined_parts e"
  by (simp add: hash_input_def joined_parts_nonempty)

lemma make_entry_key_joined: "make_entry_key dg dm e = dg (joined_parts e)"
  by (simp add: make_entry_key_def hash_input_joined)

lemma entry_parts_upd:
  "k \<notin> set identity_fields \<Longrightarrow> entry_parts (e(k := v)) = entry_parts e"
  by (auto simp: entry_parts_def dict_get_def identity_fields_def)

lemma length_entry_parts: "length (entry_parts e) = 6"
  by (simp add: entry_parts_def identity_fields_def)

lemma hd_join6: "hd (join ''||'' [a, b, c, d, x, y]) = (if a = [] then CHR ''|'' else hd a)"
  by (cases a) simp_all

lemma last_join6: "last (join ''||'' [a, b, c, d, x, y]) = (if y = [] then CHR ''|'' else last y)"
  by simp

lemma joined_parts_plain:
  assumes "plain_fields e"
  shows "joined_parts e = join ''||'' (entry_parts e)"
proof -
  obtain a b c d x y where ps: "entry_parts e = [a, b, c, d, x, y]"
    by (simp add: entry_parts_def identity_fields_def)
  from assms have a: "a = [] \<or> \<not> isspace (hd a)" and y: "y = [] \<or> \<not> isspace (last y)"
    by (simp_all add: plain_fields_def ps)
  have "\<not> isspace (hd (join ''||'' [a, b, c, d, x, y]))"
    unfolding hd_join6 using a bar_not_space by auto
  moreover have "\<not> isspace (last (join ''||'' [a, b, c, d, x, y]))"
    unfolding last_join6 using y bar_not_space by auto
  ultimately have "strip (join ''||'' [a, b, c, d, x, y]) = join ''||'' [a, b, c, d, x, y]"
    by (intro strip_id) blast
  then show ?thesis by (simp only: joined_parts_def ps)
qed

text \<open>
  C1, at two entries whose six identity fields are all absent and whose summaries
  differ: the hash input of both is the string of ten vertical bars, so both get the
  same key, whatever the digest and the serialiser are.
\<close>

theorem make_entry_key_fallback_unreached:
  "c1_entry_a ''summary'' \<noteq> c1_entry_b ''summary''
   \<and> entry_parts c1_entry_a = [[], [], [], [], [], []]
   \<and> entry_parts c1_entry_b = [[], [], [], [], [], []]
   \<and> make_entry_key dg dm c1_entry_a = dg ''||||||||||''
   \<and> make_entry_key dg dm c1_entry_b = dg ''||||||||||''"
proof -
  have 1: "entry_parts c1_entry_a = [[], [], [], [], [], []]"
    by (simp add: entry_parts_def identity_fields_def dict_get_def c1_entry_a_def)
  have 2: "entry_parts c1_entry_b = [[], [], [], [], [], []]"
    by (simp add: entry_parts_def identity_fields_def dict_get_def c1_entry_b_def)
  have 3: "strip ''||||||||||'' = ''||||||||||''"
    by (rule strip_id) (simp add: bar_not_space)
  show ?thesis
    by (simp add: make_entry_key_joined joined_parts_def 1 2 3)
       (simp add: c1_entry_a_def c1_entry_b_def)
qed

text \<open>
  C2, as amended. Two entries with the same six field strings get the same key. Two
  entries with plain identity fields that differ in one of the six strings get
  different hash inputs.
\<close>

theorem make_entry_key_tuples:
  "(entry_parts e1 = entry_parts e2 \<longrightarrow> make_entry_key dg dm e1 = make_entry_key dg dm e2)
   \<and> (plain_fields e1 \<and> plain_fields e2 \<and> entry_parts e1 \<noteq> entry_parts e2
        \<longrightarrow> hash_input dm e1 \<noteq> hash_input dm e2)"
proof (intro conjI impI)
  assume "entry_parts e1 = entry_parts e2"
  then show "make_entry_key dg dm e1 = make_entry_key dg dm e2"
    by (simp add: make_entry_key_joined joined_parts_def)
next
  assume a: "plain_fields e1 \<and> plain_fields e2 \<and> entry_parts e1 \<noteq> entry_parts e2"
  show "hash_input dm e1 \<noteq> hash_input dm e2"
  proof
    assume "hash_input dm e1 = hash_input dm e2"
    then have "join ''||'' (entry_parts e1) = join ''||'' (entry_parts e2)"
      using a by (simp add: hash_input_joined joined_parts_plain)
    then have "entry_parts e1 = entry_parts e2"
      using a join_bars_inj [of "entry_parts e1" "entry_parts e2"]
      by (simp add: length_entry_parts plain_fields_def)
    with a show False by simp
  qed
qed

text \<open>
  C2 as stated fails: the two entries differ in \<open>id\<close> and in \<open>guid\<close>, and the joined
  string of both is the letter \<open>a\<close> followed by eleven vertical bars.
\<close>

theorem make_entry_key_collision:
  "entry_parts c2_entry_a \<noteq> entry_parts c2_entry_b
   \<and> joined_parts c2_entry_a = joined_parts c2_entry_b
   \<and> (\<forall>dg dm. make_entry_key dg dm c2_entry_a = make_entry_key dg dm c2_entry_b)"
proof -
  have 1: "entry_parts c2_entry_a = [''a|'', [], [], [], [], []]"
    by (simp add: entry_parts_def identity_fields_def dict_get_def c2_entry_a_def)
  have 2: "entry_parts c2_entry_b = [''a'', ''|'', [], [], [], []]"
    by (simp add: entry_parts_def identity_fields_def dict_get_def c2_entry_b_def)
  have 3: "joined_parts c2_entry_a = joined_parts c2_entry_b"
    by (simp add: joined_parts_def 1 2)
  show ?thesis using 3 by (simp add: make_entry_key_joined 1 2)
qed

theorem make_entry_key_tuples_witness:
  "entry_parts c2_entry_c = entry_parts c2_entry_e
   \<and> make_entry_key (\<lambda>s. s) (\<lambda>e. []) c2_entry_c = make_entry_key (\<lambda>s. s) (\<lambda>e. []) c2_entry_e
   \<and> plain_fields c2_entry_c \<and> plain_fields c2_entry_d
   \<and> entry_parts c2_entry_c \<noteq> entry_parts c2_entry_d
   \<and> hash_input (\<lambda>e. []) c2_entry_c \<noteq> hash_input (\<lambda>e. []) c2_entry_d"
proof -
  have 1: "entry_parts c2_entry_c = [''a'', [], [], ''x'', [], []]"
    by (simp add: entry_parts_def identity_fields_def dict_get_def c2_entry_c_def)
  have 2: "entry_parts c2_entry_d = [''a'', [], [], ''y'', [], []]"
    by (simp add: entry_parts_def identity_fields_def dict_get_def c2_entry_d_def)
  have 3: "entry_parts c2_entry_e = [''a'', [], [], ''x'', [], []]"
    by (simp add: entry_parts_def identity_fields_def dict_get_def c2_entry_e_def)
  have a: "\<not> isspace CHR ''a''" by (simp add: isspace_def)
  have h: "plain_fields c2_entry_c \<and> plain_fields c2_entry_d
             \<and> entry_parts c2_entry_c \<noteq> entry_parts c2_entry_d"
    by (simp add: plain_fields_def 1 2 a)
  have g: "entry_parts c2_entry_c = entry_parts c2_entry_e"
    by (simp add: 1 3)
  show ?thesis
    using h g make_entry_key_tuples [of c2_entry_c c2_entry_d "\<lambda>s. s" "\<lambda>e. []"]
          make_entry_key_tuples [of c2_entry_c c2_entry_e "\<lambda>s. s" "\<lambda>e. []"]
    by blast
qed

section \<open>Publication time\<close>

lemma digit_0: "digit 0 = CHR ''0''"
  by code_simp

lemma show_nat_1: "n < 10 \<Longrightarrow> show_nat n = [digit n]"
  by (subst show_nat.simps) (simp add: digit_def)

lemma show_nat_2: "10 \<le> n \<Longrightarrow> n < 100 \<Longrightarrow> show_nat n = [digit (n div 10), digit (n mod 10)]"
  by (subst show_nat.simps) (simp add: show_nat_1 digit_def)

lemma show_nat_3:
  "100 \<le> n \<Longrightarrow> n < 1000 \<Longrightarrow> show_nat n = [digit (n div 100), digit (n div 10 mod 10), digit (n mod 10)]"
  by (subst show_nat.simps) (simp add: show_nat_2 digit_def div_mult2_eq [symmetric])

lemma show_nat_4:
  "1000 \<le> n \<Longrightarrow> n < 10000 \<Longrightarrow>
     show_nat n = [digit (n div 1000), digit (n div 100 mod 10), digit (n div 10 mod 10), digit (n mod 10)]"
  by (subst show_nat.simps) (simp add: show_nat_3 digit_def div_mult2_eq [symmetric])

lemma pad2_two_digits: "0 \<le> i \<Longrightarrow> i \<le> 99 \<Longrightarrow> pad2 i = two_digits i"
proof -
  assume a: "0 \<le> i" "i \<le> 99"
  show ?thesis
  proof (cases "i < 10")
    case True
    then have "nat i < 10" using a by simp
    then show ?thesis
      using a True by (simp add: pad2_def two_digits_def show_int_def show_nat_1 digit_0)
  next
    case False
    then have "10 \<le> nat i" "nat i < 100" using a by simp_all
    then show ?thesis
      using a False by (simp add: pad2_def two_digits_def show_int_def show_nat_2)
  qed
qed

lemma show_int_year_digits: "1 \<le> i \<Longrightarrow> i \<le> 9999 \<Longrightarrow> show_int i = year_digits i"
proof -
  assume a: "1 \<le> i" "i \<le> 9999"
  define n where "n = nat i"
  have n: "n < 10000" "show_int i = show_nat n" "i = int n"
    using a by (simp_all add: n_def show_int_def)
  consider "n < 10" | "10 \<le> n" "n < 100" | "100 \<le> n" "n < 1000" | "1000 \<le> n" "n < 10000"
    using n(1) by linarith
  then have "show_nat n = year_digits (int n)"
  proof cases
    case 1
    then show ?thesis by (simp add: year_digits_def show_nat_1)
  next
    case 2
    then show ?thesis by (simp add: year_digits_def show_nat_2)
  next
    case 3
    then show ?thesis by (simp add: year_digits_def show_nat_3)
  next
    case 4
    then show ?thesis by (simp add: year_digits_def four_digits_def show_nat_4)
  qed
  then show ?thesis using n by simp
qed

lemma py_datetime_fields:
  assumes "py_datetime args = Some dt"
  shows "3 \<le> length args \<and> dt_year dt = args ! 0 \<and> dt_month dt = args ! 1 \<and> dt_day dt = args ! 2
         \<and> dt_hour dt = arg_or_zero args 3 \<and> dt_minute dt = arg_or_zero args 4
         \<and> 1 \<le> dt_year dt \<and> dt_year dt \<le> 9999 \<and> 1 \<le> dt_month dt \<and> dt_month dt \<le> 12
         \<and> 1 \<le> dt_day dt \<and> dt_day dt \<le> 31 \<and> 0 \<le> dt_hour dt \<and> dt_hour dt \<le> 23
         \<and> 0 \<le> dt_minute dt \<and> dt_minute dt \<le> 59"
proof -
  have d: "days_in_month y m \<le> 31" for y m
    by (simp add: days_in_month_def)
  show ?thesis
    using assms d [of "args ! 0" "args ! 1"]
    by (auto simp: py_datetime_def Let_def split: if_splits)
qed

lemma strftime_digits:
  assumes "py_datetime args = Some dt"
  shows "strftime dt =
           two_digits (args ! 2) @ ''.'' @ two_digits (args ! 1) @ ''.'' @ year_digits (args ! 0)
             @ '' '' @ two_digits (arg_or_zero args 3) @ '':'' @ two_digits (arg_or_zero args 4)"
proof -
  note f = py_datetime_fields [OF assms]
  have "pad2 (dt_day dt) = two_digits (args ! 2)"
    using f pad2_two_digits [of "dt_day dt"] by simp
  moreover have "pad2 (dt_month dt) = two_digits (args ! 1)"
    using f pad2_two_digits [of "dt_month dt"] by simp
  moreover have "show_int (dt_year dt) = year_digits (args ! 0)"
    using f show_int_year_digits [of "dt_year dt"] by simp
  moreover have "pad2 (dt_hour dt) = two_digits (arg_or_zero args 3)"
    using f pad2_two_digits [of "dt_hour dt"] by simp
  moreover have "pad2 (dt_minute dt) = two_digits (arg_or_zero args 4)"
    using f pad2_two_digits [of "dt_minute dt"] by simp
  ultimately show ?thesis
    by (simp add: strftime_def)
qed

lemma parsed_loop_two:
  "parsed_loop e [k1, k2] =
     (case parsed_rendering e k1 of Some s \<Rightarrow> Some s | None \<Rightarrow> parsed_rendering e k2)"
  by (simp add: parsed_rendering_def split: option.splits)

text \<open>
  C9, as amended. \<open>format_published\<close> returns the rendering of the parsed tuple under
  \<open>published_parsed\<close> when there is one that renders, else that of the tuple under
  \<open>updated_parsed\<close>; when neither renders, the trimmed string of the raw value of
  \<open>published\<close>, or of \<open>updated\<close> when the key \<open>published\<close> is absent; and the
  empty string when both keys are absent. A tuple that renders is rendered from its own
  fields as two-digit day, two-digit month, the year without leading zeros, two-digit
  hour and two-digit minute; for a year from 1000 on the year has four digits and
  this is the form \<open>DD.MM.YYYY HH:MM\<close>.
\<close>

theorem format_published_spec:
  "format_published e =
     (case parsed_rendering e ''published_parsed'' of
        Some s \<Rightarrow> s
      | None \<Rightarrow>
          (case parsed_rendering e ''updated_parsed'' of
             Some s \<Rightarrow> s
           | None \<Rightarrow> strip (py_str (py_or (raw_published e) (PStr [])))))
   \<and> (parsed_rendering e ''published_parsed'' = None \<and> parsed_rendering e ''updated_parsed'' = None
        \<and> e ''published'' = None \<and> e ''updated'' = None \<longrightarrow> format_published e = [])
   \<and> (\<forall>k t dt. e k = Some (PTuple t) \<and> t \<noteq> [] \<and> py_datetime (take 6 t) = Some dt \<longrightarrow>
         parsed_rendering e k =
           Some (two_digits (t ! 2) @ ''.'' @ two_digits (t ! 1) @ ''.'' @ year_digits (t ! 0)
                 @ '' '' @ two_digits (arg_or_zero (take 6 t) 3) @ '':''
                 @ two_digits (arg_or_zero (take 6 t) 4))
         \<and> (1000 \<le> t ! 0 \<longrightarrow>
              parsed_rendering e k =
                Some (two_digits (t ! 2) @ ''.'' @ two_digits (t ! 1) @ ''.'' @ four_digits (t ! 0)
                      @ '' '' @ two_digits (arg_or_zero (take 6 t) 3) @ '':''
                      @ two_digits (arg_or_zero (take 6 t) 4))))"
proof (intro conjI allI impI)
  have r: "dict_get e ''published'' (dict_get e ''updated'' (PStr [])) = raw_published e"
    by (simp add: dict_get_def raw_published_def split: option.splits)
  show 1: "format_published e =
     (case parsed_rendering e ''published_parsed'' of
        Some s \<Rightarrow> s
      | None \<Rightarrow>
          (case parsed_rendering e ''updated_parsed'' of
             Some s \<Rightarrow> s
           | None \<Rightarrow> strip (py_str (py_or (raw_published e) (PStr [])))))"
    unfolding format_published_def parsed_loop_two r by (simp split: option.splits)
  show "format_published e = []"
    if "parsed_rendering e ''published_parsed'' = None \<and> parsed_rendering e ''updated_parsed'' = None
        \<and> e ''published'' = None \<and> e ''updated'' = None"
    using that unfolding 1 by (simp add: raw_published_def py_or_def strip_def)
next
  fix k t dt
  assume a: "e k = Some (PTuple t) \<and> t \<noteq> [] \<and> py_datetime (take 6 t) = Some dt"
  have i: "take 6 t ! 0 = t ! 0" "take 6 t ! 1 = t ! 1" "take 6 t ! 2 = t ! 2"
    by simp_all
  show g: "parsed_rendering e k =
           Some (two_digits (t ! 2) @ ''.'' @ two_digits (t ! 1) @ ''.'' @ year_digits (t ! 0)
                 @ '' '' @ two_digits (arg_or_zero (take 6 t) 3) @ '':''
                 @ two_digits (arg_or_zero (take 6 t) 4))"
    using a i strftime_digits [of "take 6 t" dt] by (simp add: parsed_rendering_def)
  assume y: "1000 \<le> t ! 0"
  then have "year_digits (t ! 0) = four_digits (t ! 0)"
    by (simp add: year_digits_def)
  with g show "parsed_rendering e k =
                Some (two_digits (t ! 2) @ ''.'' @ two_digits (t ! 1) @ ''.'' @ four_digits (t ! 0)
                      @ '' '' @ two_digits (arg_or_zero (take 6 t) 3) @ '':''
                      @ two_digits (arg_or_zero (take 6 t) 4))"
    by simp
qed

text \<open>
  C9 as stated fails for a year below 1000: the tuple of 2 January 999, 03:04:05 is
  rendered with a three-digit year, not in the form \<open>DD.MM.YYYY HH:MM\<close>.
\<close>

theorem format_published_early_year:
  "format_published c9_entry_early = ''02.01.999 03:04''
   \<and> length (format_published c9_entry_early) = 15
   \<and> format_published c9_entry_early
       \<noteq> two_digits 2 @ ''.'' @ two_digits 1 @ ''.'' @ four_digits 999
           @ '' '' @ two_digits 3 @ '':'' @ two_digits 4"
  by code_simp

theorem format_published_spec_witness:
  "format_published c9_entry = ''01.03.2024 18:45''
   \<and> format_published c9_entry_raw = ''yesterday''
   \<and> format_published Map.empty = []"
proof -
  note t = format_published_spec [of c9_entry]
  have p: "parsed_rendering c9_entry ''published_parsed'' = None"
    by code_simp
  have k: "c9_entry ''updated_parsed'' = Some (PTuple [2024, 3, 1, 18, 45, 9, 4, 61, 0])
           \<and> [2024, 3, 1, 18, 45, 9, 4, 61, 0] \<noteq> ([] :: int list)
           \<and> py_datetime (take 6 [2024, 3, 1, 18, 45, 9, 4, 61, 0])
               = Some \<lparr>dt_year = 2024, dt_month = 3, dt_day = 1, dt_hour = 18, dt_minute = 45, dt_second = 9\<rparr>"
    by (simp add: c9_entry_def py_datetime_def arg_or_zero_def days_in_month_def)
  have u: "parsed_rendering c9_entry ''updated_parsed'' =
           Some (two_digits 1 @ ''.'' @ two_digits 3 @ ''.'' @ four_digits 2024
                 @ '' '' @ two_digits 18 @ '':'' @ two_digits 45)"
    using t [THEN conjunct2, THEN conjunct2, rule_format,
               of "''updated_parsed''" "[2024, 3, 1, 18, 45, 9, 4, 61, 0]"
                  "\<lparr>dt_year = 2024, dt_month = 3, dt_day = 1, dt_hour = 18, dt_minute = 45, dt_second = 9\<rparr>",
             THEN conjunct2] k
    by (simp add: arg_or_zero_def)
  have v: "two_digits 1 @ ''.'' @ two_digits 3 @ ''.'' @ four_digits 2024
                 @ '' '' @ two_digits 18 @ '':'' @ two_digits 45 = ''01.03.2024 18:45''"
    by code_simp
  have a: "format_published c9_entry = ''01.03.2024 18:45''"
    using t p u v by simp
  have r1: "parsed_rendering c9_entry_raw ''published_parsed'' = None"
    "parsed_rendering c9_entry_raw ''updated_parsed'' = None"
    "strip (py_str (py_or (raw_published c9_entry_raw) (PStr []))) = ''yesterday''"
    by code_simp+
  have b: "format_published c9_entry_raw = ''yesterday''"
    using format_published_spec [of c9_entry_raw] r1 by simp
  have r2: "parsed_rendering Map.empty ''published_parsed'' = None"
    "parsed_rendering Map.empty ''updated_parsed'' = None"
    by (simp_all add: parsed_rendering_def)
  have c: "format_published Map.empty = []"
    using format_published_spec [of Map.empty] r2 by blast
  show ?thesis using a b c by simp
qed

section \<open>Summary and description\<close>

text \<open>
  C10. For an entry without the key \<open>summary\<close>, the summary text handed to the filter
  is the trimmed string of the value of \<open>description\<close>, and the empty string when
  that key is absent too. The key of an entry does not depend on the values of
  \<open>summary\<close> and \<open>description\<close>.
\<close>

theorem summary_falls_back_to_description:
  "(e ''summary'' = None \<longrightarrow>
      entry_summary e = strip (py_str (py_or (dict_get e ''description'' (PStr [])) (PStr [])))
      \<and> entry_passes f e =
          passes_filters (entry_title e)
            (strip (py_str (py_or (dict_get e ''description'' (PStr [])) (PStr []))))
            (feed_include f) (feed_exclude f))
   \<and> (e ''summary'' = None \<and> e ''description'' = None \<longrightarrow> entry_summary e = [])
   \<and> make_entry_key dg dm (e(''summary'' := s, ''description'' := d)) = make_entry_key dg dm e"
proof -
  have "entry_parts (e(''summary'' := s, ''description'' := d)) = entry_parts e"
    by (simp add: entry_parts_upd identity_fields_def)
  then have k: "make_entry_key dg dm (e(''summary'' := s, ''description'' := d)) = make_entry_key dg dm e"
    by (simp add: make_entry_key_joined joined_parts_def)
  have e: "strip [] = []" by (simp add: strip_def)
  show ?thesis
    using k by (simp add: entry_summary_def entry_passes_def dict_get_def py_or_def e)
qed

theorem summary_falls_back_to_description_witness:
  "c10_entry ''summary'' = None
   \<and> entry_summary c10_entry = ''planned outage''
   \<and> entry_passes c10_feed c10_entry
   \<and> entry_summary (Map.empty :: entry) = []
   \<and> make_entry_key (\<lambda>s. s) (\<lambda>e. []) (c10_entry(''summary'' := Some (PStr ''x''), ''description'' := None))
       = make_entry_key (\<lambda>s. s) (\<lambda>e. []) c10_entry"
proof -
  have 1: "c10_entry ''summary'' = None" by (simp add: c10_entry_def)
  have 2: "strip (py_str (py_or (dict_get c10_entry ''description'' (PStr [])) (PStr []))) = ''planned outage''"
    by code_simp
  have 3: "passes_filters (entry_title c10_entry) ''planned outage'' (feed_include c10_feed) (feed_exclude c10_feed)"
    by code_simp
  have 4: "(Map.empty :: entry) ''summary'' = None \<and> (Map.empty :: entry) ''description'' = None" by simp
  note t = summary_falls_back_to_description [of c10_entry c10_feed "\<lambda>s. s" "\<lambda>e. []" "Some (PStr ''x'')" None]
  note u = summary_falls_back_to_description [of "Map.empty :: entry" c10_feed "\<lambda>s. s" "\<lambda>e. []" None None]
  have a: "entry_summary c10_entry = ''planned outage''"
    using t 1 2 by metis
  have b: "entry_passes c10_feed c10_entry"
    using t 1 2 3 by metis
  have c: "entry_summary (Map.empty :: entry) = []"
    using u 4 by blast
  have d: "make_entry_key (\<lambda>s. s) (\<lambda>e. []) (c10_entry(''summary'' := Some (PStr ''x''), ''description'' := None))
       = make_entry_key (\<lambda>s. s) (\<lambda>e. []) c10_entry"
    using t by blast
  show ?thesis
    using 1 a b c d by blast
qed

section \<open>Properties of a run\<close>

subsection \<open>Sending\<close>

lemma telegram_send_missing:
  "creds_missing en \<Longrightarrow> telegram_send en text w = Inl (MissingCredentials, w)"
  by (auto simp: telegram_send_def creds_missing_def Let_def)

lemma telegram_send_Inr:
  "telegram_send en text w = Inr w' \<Longrightarrow>
     \<not> creds_missing en \<and> post_ok en (length (posts w))
     \<and> (\<exists>r. w' = w\<lparr>posts := posts w @ [r]\<rparr> \<and> req_text r = text)"
  by (auto simp: telegram_send_def creds_missing_def Let_def split: if_splits)

lemma telegram_send_Inl:
  "telegram_send en text w = Inl (err, w') \<Longrightarrow>
     (err = MissingCredentials \<and> creds_missing en \<and> w' = w)
     \<or> (err = DeliveryFailed \<and> \<not> creds_missing en \<and> \<not> post_ok en (length (posts w))
         \<and> (\<exists>r. w' = w\<lparr>posts := posts w @ [r]\<rparr> \<and> req_text r = text))"
  by (auto simp: telegram_send_def creds_missing_def Let_def split: if_splits)

subsection \<open>One entry\<close>

lemma process_entry_seen:
  "entry_key en e \<in> set (seen_hashes fs) \<Longrightarrow> process_entry en f e fs = Inr fs"
  by (simp add: process_entry_def)

lemma process_entry_filtered:
  "entry_key en e \<notin> set (seen_hashes fs) \<Longrightarrow> \<not> entry_passes f e \<Longrightarrow>
     process_entry en f e fs =
       Inr (fs\<lparr>seen_hashes := seen_hashes fs @ [entry_key en e],
               new_hashes := new_hashes fs @ [entry_key en e]\<rparr>)"
  by (simp add: process_entry_def Let_def)

lemma process_entry_sent:
  "entry_key en e \<notin> set (seen_hashes fs) \<Longrightarrow> entry_passes f e \<Longrightarrow>
     telegram_send en (entry_message f e) (world (run fs)) = Inr w' \<Longrightarrow>
     process_entry en f e fs =
       Inr (fs\<lparr>seen_hashes := seen_hashes fs @ [entry_key en e],
               new_hashes := new_hashes fs @ [entry_key en e],
               run := (run fs)\<lparr>sent := sent (run fs) + 1, world := w'\<rparr>\<rparr>)"
  by (simp add: process_entry_def Let_def)

lemma process_entry_failed:
  "entry_key en e \<notin> set (seen_hashes fs) \<Longrightarrow> entry_passes f e \<Longrightarrow>
     telegram_send en (entry_message f e) (world (run fs)) = Inl x \<Longrightarrow>
     process_entry en f e fs = Inl x"
  by (simp add: process_entry_def)

lemma process_entry_cases:
  obtains (seen) "entry_key en e \<in> set (seen_hashes fs)" "process_entry en f e fs = Inr fs"
  | (filtered) "entry_key en e \<notin> set (seen_hashes fs)" "\<not> entry_passes f e"
      "process_entry en f e fs =
         Inr (fs\<lparr>seen_hashes := seen_hashes fs @ [entry_key en e],
                 new_hashes := new_hashes fs @ [entry_key en e]\<rparr>)"
  | (sent) w' where "entry_key en e \<notin> set (seen_hashes fs)" "entry_passes f e"
      "telegram_send en (entry_message f e) (world (run fs)) = Inr w'"
      "process_entry en f e fs =
         Inr (fs\<lparr>seen_hashes := seen_hashes fs @ [entry_key en e],
                 new_hashes := new_hashes fs @ [entry_key en e],
                 run := (run fs)\<lparr>sent := sent (run fs) + 1, world := w'\<rparr>\<rparr>)"
  | (failed) x where "entry_key en e \<notin> set (seen_hashes fs)" "entry_passes f e"
      "telegram_send en (entry_message f e) (world (run fs)) = Inl x"
      "process_entry en f e fs = Inl x"
proof (cases "entry_key en e \<in> set (seen_hashes fs)")
  case True
  then show ?thesis using seen process_entry_seen by blast
next
  case unseen: False
  show ?thesis
  proof (cases "entry_passes f e")
    case False
    then show ?thesis using unseen filtered process_entry_filtered by blast
  next
    case True
    show ?thesis
    proof (cases "telegram_send en (entry_message f e) (world (run fs))")
      case (Inl x)
      then show ?thesis using unseen True failed process_entry_failed by blast
    next
      case (Inr w')
      then show ?thesis using unseen True sent process_entry_sent by blast
    qed
  qed
qed

text \<open>What a step that returns leaves alone, and what it records.\<close>

lemma process_entry_Inr:
  assumes "process_entry en f e fs = Inr fs'"
  shows "seen_map (run fs') = seen_map (run fs) \<and> changed (run fs') = changed (run fs)
         \<and> state_file (world (run fs')) = state_file (world (run fs))
         \<and> writes (world (run fs')) = writes (world (run fs))
         \<and> stdout (world (run fs')) = stdout (world (run fs))
         \<and> entry_key en e \<in> set (seen_hashes fs')
         \<and> (\<exists>ks. seen_hashes fs' = seen_hashes fs @ ks \<and> new_hashes fs' = new_hashes fs @ ks
                  \<and> set ks \<subseteq> {entry_key en e} \<and> set ks \<inter> set (seen_hashes fs) = {})
         \<and> (creds_missing en \<longrightarrow> run fs' = run fs)
         \<and> (\<not> entry_passes f e \<longrightarrow> run fs' = run fs)"
proof (cases rule: process_entry_cases [of en e fs f])
  case seen
  with assms show ?thesis by auto
next
  case filtered
  with assms show ?thesis by auto
next
  case (sent w')
  from telegram_send_Inr [OF sent(3)] obtain r where
    "\<not> creds_missing en" "w' = (world (run fs))\<lparr>posts := posts (world (run fs)) @ [r]\<rparr>"
    by blast
  with sent assms show ?thesis by auto
next
  case (failed x)
  with assms show ?thesis by simp
qed

lemma process_entry_Inl:
  assumes "process_entry en f e fs = Inl (err, w')"
  shows "state_file w' = state_file (world (run fs)) \<and> writes w' = writes (world (run fs))
         \<and> stdout w' = stdout (world (run fs))
         \<and> ((err = MissingCredentials \<and> creds_missing en \<and> w' = world (run fs))
             \<or> (err = DeliveryFailed \<and> \<not> creds_missing en \<and> posts w' \<noteq> []
                 \<and> \<not> post_ok en (length (posts w') - 1)))"
proof (cases rule: process_entry_cases [of en e fs f])
  case (failed x)
  with assms have "telegram_send en (entry_message f e) (world (run fs)) = Inl (err, w')"
    by simp
  from telegram_send_Inl [OF this] show ?thesis by auto
qed (use assms in simp_all)

subsection \<open>The loop over the entries\<close>

lemma entry_loop_append:
  "entry_loop en f (es1 @ es2) fs =
     (case entry_loop en f es1 fs of Inl x \<Rightarrow> Inl x | Inr fs' \<Rightarrow> entry_loop en f es2 fs')"
  by (induction es1 arbitrary: fs) (auto split: sum.splits)

lemma entry_loop_Inr:
  assumes "entry_loop en f es fs = Inr fs'"
  shows "seen_map (run fs') = seen_map (run fs) \<and> changed (run fs') = changed (run fs)
         \<and> state_file (world (run fs')) = state_file (world (run fs))
         \<and> writes (world (run fs')) = writes (world (run fs))
         \<and> stdout (world (run fs')) = stdout (world (run fs))
         \<and> entry_key en ` set es \<subseteq> set (seen_hashes fs')
         \<and> (\<exists>ks. seen_hashes fs' = seen_hashes fs @ ks \<and> new_hashes fs' = new_hashes fs @ ks
                  \<and> set ks \<subseteq> entry_key en ` set es)
         \<and> (distinct (seen_hashes fs) \<longrightarrow> distinct (seen_hashes fs'))
         \<and> (creds_missing en \<longrightarrow> run fs' = run fs)"
  using assms
proof (induction es arbitrary: fs)
  case Nil
  then show ?case by simp
next
  case (Cons e es)
  from Cons.prems obtain fs1 where
    1: "process_entry en f e fs = Inr fs1" and 2: "entry_loop en f es fs1 = Inr fs'"
    by (auto split: sum.splits)
  note a = process_entry_Inr [OF 1]
  note b = Cons.IH [OF 2]
  from a obtain ks where ks: "seen_hashes fs1 = seen_hashes fs @ ks"
    "new_hashes fs1 = new_hashes fs @ ks" "set ks \<subseteq> {entry_key en e}"
    "set ks \<inter> set (seen_hashes fs) = {}" by blast
  from b obtain ks' where ks': "seen_hashes fs' = seen_hashes fs1 @ ks'"
    "new_hashes fs' = new_hashes fs1 @ ks'" "set ks' \<subseteq> entry_key en ` set es" by blast
  have k: "entry_key en e \<in> set (seen_hashes fs')"
    using a ks'(1) by simp
  have app: "\<exists>ks. seen_hashes fs' = seen_hashes fs @ ks \<and> new_hashes fs' = new_hashes fs @ ks
                  \<and> set ks \<subseteq> entry_key en ` set (e # es)"
    using ks ks' by (intro exI [of _ "ks @ ks'"]) auto
  have dks: "distinct (seen_hashes fs) \<longrightarrow> distinct (seen_hashes fs1)"
  proof (cases rule: process_entry_cases [of en e fs f])
    case seen
    with 1 show ?thesis by simp
  next
    case filtered
    with 1 show ?thesis by auto
  next
    case (sent w')
    with 1 show ?thesis by auto
  next
    case (failed x)
    with 1 show ?thesis by simp
  qed
  show ?case
    using a b k app dks by (simp del: set_simps) (auto)
qed

lemma entry_loop_all_seen:
  "entry_key en ` set es \<subseteq> set (seen_hashes fs) \<Longrightarrow> entry_loop en f es fs = Inr fs"
  by (induction es) (auto simp: process_entry_seen)

lemma entry_loop_Inl:
  assumes "entry_loop en f es fs = Inl (err, w')"
  shows "state_file w' = state_file (world (run fs)) \<and> writes w' = writes (world (run fs))
         \<and> stdout w' = stdout (world (run fs))
         \<and> ((err = MissingCredentials \<and> creds_missing en \<and> w' = world (run fs))
             \<or> (err = DeliveryFailed \<and> \<not> creds_missing en \<and> posts w' \<noteq> []
                 \<and> \<not> post_ok en (length (posts w') - 1)))"
  using assms
proof (induction es arbitrary: fs)
  case Nil
  then show ?case by simp
next
  case (Cons e es)
  show ?case
  proof (cases "process_entry en f e fs")
    case (Inl x)
    with Cons.prems have "process_entry en f e fs = Inl (err, w')" by simp
    from process_entry_Inl [OF this] show ?thesis .
  next
    case (Inr fs1)
    with Cons.prems have 2: "entry_loop en f es fs1 = Inl (err, w')" by simp
    note a = process_entry_Inr [OF Inr]
    note b = Cons.IH [OF 2]
    show ?thesis using a b by auto
  qed
qed

subsection \<open>One feed\<close>

lemma process_feed_no_url: "feed_url f = [] \<Longrightarrow> process_feed en f st = Inr st"
  by (simp add: process_feed_def)

lemma process_feed_bozo:
  "feed_url f \<noteq> [] \<Longrightarrow> bozo (fetch en (feed_url f)) \<Longrightarrow>
     process_feed en f st = Inr (warned st (feed_url f))"
  by (simp add: process_feed_def warned_def bozo_warning_def)

lemma process_feed_entries:
  "\<not> skipped en f \<Longrightarrow>
     process_feed en f st =
       (case entry_loop en f (feed_entries en f) (feed_start st (feed_url f)) of
          Inl x \<Rightarrow> Inl x
        | Inr fs \<Rightarrow>
            if new_hashes fs \<noteq> []
            then Inr ((run fs)\<lparr>seen_map := (seen_map (run fs))
                                  (feed_url f \<mapsto> last_400 (set_order en (seen_hashes fs))),
                              changed := True\<rparr>)
            else Inr (run fs))"
  by (simp add: process_feed_def skipped_def feed_entries_def Let_def)

lemma length_last_400: "length (last_400 xs) \<le> 400"
  by (simp add: last_400_def)

lemma process_feed_Inr:
  assumes "process_feed en f st = Inr st'"
  shows "state_file (world st') = state_file (world st) \<and> writes (world st') = writes (world st)
         \<and> (changed st \<longrightarrow> changed st')
         \<and> (seen_map st' = seen_map st
              \<or> (changed st' \<and> (\<exists>hs. seen_map st' = (seen_map st)(feed_url f \<mapsto> hs) \<and> length hs \<le> 400)))
         \<and> (creds_missing en \<longrightarrow> posts (world st') = posts (world st))"
proof (cases "skipped en f")
  case True
  show ?thesis
  proof (cases "feed_url f = []")
    case True
    with assms process_feed_no_url [of f en st] show ?thesis by simp
  next
    case False
    with True assms process_feed_bozo [of f en st] have "st' = warned st (feed_url f)"
      by (simp add: skipped_def)
    then show ?thesis by (simp add: warned_def)
  qed
next
  case False
  note pf = process_feed_entries [OF False, of st]
  show ?thesis
  proof (cases "entry_loop en f (feed_entries en f) (feed_start st (feed_url f))")
    case (Inl x)
    with pf assms show ?thesis by simp
  next
    case (Inr fs)
    note l = entry_loop_Inr [OF Inr]
    have r: "run (feed_start st (feed_url f)) = st" by (simp add: feed_start_def)
    show ?thesis
    proof (cases "new_hashes fs = []")
      case True
      with pf Inr assms have "st' = run fs" by simp
      with l r show ?thesis by auto
    next
      case False
      with pf Inr assms have
        "st' = (run fs)\<lparr>seen_map := (seen_map (run fs))
                                  (feed_url f \<mapsto> last_400 (set_order en (seen_hashes fs))),
                        changed := True\<rparr>" by simp
      with l r length_last_400 [of "set_order en (seen_hashes fs)"] show ?thesis by auto
    qed
  qed
qed

lemma process_feed_Inl:
  assumes "process_feed en f st = Inl (err, w')"
  shows "state_file w' = state_file (world st) \<and> writes w' = writes (world st)
         \<and> ((err = MissingCredentials \<and> creds_missing en \<and> posts w' = posts (world st))
             \<or> (err = DeliveryFailed \<and> \<not> creds_missing en \<and> posts w' \<noteq> []
                 \<and> \<not> post_ok en (length (posts w') - 1)))"
proof (cases "skipped en f")
  case True
  show ?thesis
  proof (cases "feed_url f = []")
    case True
    with assms process_feed_no_url [of f en st] show ?thesis by simp
  next
    case False
    with True assms process_feed_bozo [of f en st] show ?thesis
      by (simp add: skipped_def)
  qed
next
  case False
  note pf = process_feed_entries [OF False, of st]
  have r: "run (feed_start st (feed_url f)) = st" by (simp add: feed_start_def)
  from pf assms have "entry_loop en f (feed_entries en f) (feed_start st (feed_url f)) = Inl (err, w')"
    by (auto split: sum.splits if_splits)
  from entry_loop_Inl [OF this] r show ?thesis by auto
qed

subsection \<open>The loop over the feeds\<close>

lemma feed_loop_append:
  "feed_loop en (fs1 @ fs2) st =
     (case feed_loop en fs1 st of Inl x \<Rightarrow> Inl x | Inr st' \<Rightarrow> feed_loop en fs2 st')"
  by (induction fs1 arbitrary: st) (auto split: sum.splits)

lemma feed_loop_Inr:
  assumes "feed_loop en fs st = Inr st'"
  shows "state_file (world st') = state_file (world st) \<and> writes (world st') = writes (world st)
         \<and> (changed st \<longrightarrow> changed st')
         \<and> (changed st' \<or> seen_map st' = seen_map st)
         \<and> (\<forall>u. stored (seen_map st') u = stored (seen_map st) u
                   \<or> length (stored (seen_map st') u) \<le> 400)
         \<and> (creds_missing en \<longrightarrow> posts (world st') = posts (world st))"
  using assms
proof (induction fs arbitrary: st)
  case Nil
  then show ?case by simp
next
  case (Cons f fs)
  from Cons.prems obtain st1 where
    1: "process_feed en f st = Inr st1" and 2: "feed_loop en fs st1 = Inr st'"
    by (auto split: sum.splits)
  note a = process_feed_Inr [OF 1]
  note b = Cons.IH [OF 2]
  have s: "\<forall>u. stored (seen_map st1) u = stored (seen_map st) u
                   \<or> length (stored (seen_map st1) u) \<le> 400"
    using a by (auto simp: stored_def)
  have "\<forall>u. stored (seen_map st') u = stored (seen_map st) u
                   \<or> length (stored (seen_map st') u) \<le> 400"
  proof
    fix u
    from b have "stored (seen_map st') u = stored (seen_map st1) u
                   \<or> length (stored (seen_map st') u) \<le> 400" by blast
    with s show "stored (seen_map st') u = stored (seen_map st) u
                   \<or> length (stored (seen_map st') u) \<le> 400" by metis
  qed
  moreover have "changed st' \<or> seen_map st' = seen_map st"
    using a b by auto
  ultimately show ?case using a b by simp
qed

lemma feed_loop_Inl:
  assumes "feed_loop en fs st = Inl (err, w')"
  shows "state_file w' = state_file (world st) \<and> writes w' = writes (world st)
         \<and> ((err = MissingCredentials \<and> creds_missing en \<and> posts w' = posts (world st))
             \<or> (err = DeliveryFailed \<and> \<not> creds_missing en \<and> posts w' \<noteq> []
                 \<and> \<not> post_ok en (length (posts w') - 1)))"
  using assms
proof (induction fs arbitrary: st)
  case Nil
  then show ?case by simp
next
  case (Cons f fs)
  show ?case
  proof (cases "process_feed en f st")
    case (Inl x)
    with Cons.prems have "process_feed en f st = Inl (err, w')" by simp
    from process_feed_Inl [OF this] show ?thesis .
  next
    case (Inr st1)
    with Cons.prems have 2: "feed_loop en fs st1 = Inl (err, w')" by simp
    note a = process_feed_Inr [OF Inr]
    note b = Cons.IH [OF 2]
    show ?thesis using a b by auto
  qed
qed

subsection \<open>The run\<close>

lemma main_Inl:
  assumes "main en feeds w = Inl (err, w')"
  shows "feed_loop en feeds (run_start w) = Inl (err, w')"
  using assms by (auto simp: main_def Let_def split: if_splits sum.splits)

lemma main_of_Inl:
  assumes "feeds \<noteq> []" "feed_loop en feeds (run_start w) = Inl x"
  shows "main en feeds w = Inl x"
  using assms by (simp add: main_def)

lemma run_start_simps:
  "seen_map (run_start w) = load_seen w" "changed (run_start w) = False"
  "sent (run_start w) = 0" "world (run_start w) = w"
  by (simp_all add: run_start_def)

lemma main_Inr:
  assumes "main en feeds w = Inr (rc, w')"
  shows "(feeds = [] \<and> rc = 1 \<and> load_seen w' = load_seen w \<and> posts w' = posts w \<and> writes w' = writes w
            \<and> state_file w' = state_file w)
         \<or> (feeds \<noteq> [] \<and> rc = 0 \<and>
             (\<exists>st. feed_loop en feeds (run_start w) = Inr st \<and> load_seen w' = seen_map st
                   \<and> posts w' = posts (world st)
                   \<and> writes w' = (if changed st then writes w + 1 else writes w)
                   \<and> state_file w' = (if changed st then Some (seen_map st) else state_file w)))"
proof (cases "feeds = []")
  case True
  with assms show ?thesis by (auto simp: main_def load_seen_def)
next
  case False
  with assms obtain st where st: "feed_loop en feeds (run_start w) = Inr st"
    by (auto simp: main_def split: sum.splits)
  note l = feed_loop_Inr [OF st]
  have "\<not> changed st \<Longrightarrow> seen_map st = load_seen w"
    using l by (simp add: run_start_simps)
  moreover have "state_file (world st) = state_file w" "writes (world st) = writes w"
    using l by (simp_all add: run_start_simps)
  ultimately show ?thesis
    using assms False st by (auto simp: main_def Let_def load_seen_def)
qed

text \<open>
  C5. When a feed's iteration has new hashes, the list stored for the feed's URL is
  the result of the trim and holds at most 400 identities, however many the iteration
  added. A feed's iteration leaves the dictionary as it was or stores such a list
  under the feed's URL; and after a run that returns, the list of every URL is the one
  loaded or holds at most 400 identities.
\<close>

theorem seen_bounded_after_trim:
  "(\<not> skipped en f \<and> entry_loop en f (feed_entries en f) (feed_start st (feed_url f)) = Inr fs
      \<and> new_hashes fs \<noteq> [] \<longrightarrow>
      (\<exists>st'. process_feed en f st = Inr st'
         \<and> seen_map st' (feed_url f) = Some (last_400 (set_order en (seen_hashes fs)))
         \<and> length (stored (seen_map st') (feed_url f)) \<le> 400))
   \<and> (process_feed en f st = Inr st' \<longrightarrow>
        seen_map st' = seen_map st
        \<or> (\<exists>hs. seen_map st' = (seen_map st)(feed_url f \<mapsto> hs) \<and> length hs \<le> 400))
   \<and> (main en feeds w = Inr (rc, w') \<longrightarrow>
        (\<forall>u. stored (load_seen w') u = stored (load_seen w) u
              \<or> length (stored (load_seen w') u) \<le> 400))"
proof (intro conjI impI)
  assume a: "\<not> skipped en f \<and> entry_loop en f (feed_entries en f) (feed_start st (feed_url f)) = Inr fs
      \<and> new_hashes fs \<noteq> []"
  then show "\<exists>st'. process_feed en f st = Inr st'
         \<and> seen_map st' (feed_url f) = Some (last_400 (set_order en (seen_hashes fs)))
         \<and> length (stored (seen_map st') (feed_url f)) \<le> 400"
    using process_feed_entries [of en f st] by (simp add: stored_def length_last_400)
next
  assume "process_feed en f st = Inr st'"
  from process_feed_Inr [OF this]
  show "seen_map st' = seen_map st
        \<or> (\<exists>hs. seen_map st' = (seen_map st)(feed_url f \<mapsto> hs) \<and> length hs \<le> 400)"
    by blast
next
  assume m: "main en feeds w = Inr (rc, w')"
  show "\<forall>u. stored (load_seen w') u = stored (load_seen w) u
              \<or> length (stored (load_seen w') u) \<le> 400"
  proof (cases "feeds = []")
    case True
    with main_Inr [OF m] show ?thesis by auto
  next
    case False
    with main_Inr [OF m] obtain st where
      st: "feed_loop en feeds (run_start w) = Inr st" "load_seen w' = seen_map st" by auto
    from feed_loop_Inr [OF st(1)] st(2) show ?thesis
      by (simp add: run_start_simps)
  qed
qed

text \<open>
  C8. For a feed with a URL whose fetch result is flagged \<open>bozo\<close>, the iteration
  prints the line \<open>Warnung: Feed-Parsing-Problem bei\<close> followed by the URL and changes
  nothing else: no request is issued, the count of sent messages, the seen dictionary
  and the change flag stay as they were, and the loop goes on with the remaining feeds.
\<close>

theorem malformed_feed_skipped:
  assumes "feed_url f \<noteq> []" "bozo (fetch en (feed_url f))"
  shows "process_feed en f st
           = Inr (st\<lparr>world := (world st)\<lparr>stdout := stdout (world st)
                    @ [''Warnung: Feed-Parsing-Problem bei '' @ feed_url f]\<rparr>\<rparr>)
         \<and> feed_loop en (f # fs) st
           = feed_loop en fs
               (st\<lparr>world := (world st)\<lparr>stdout := stdout (world st)
                    @ [''Warnung: Feed-Parsing-Problem bei '' @ feed_url f]\<rparr>\<rparr>)
         \<and> (\<exists>st'. process_feed en f st = Inr st'
               \<and> stdout (world st')
                   = stdout (world st) @ [''Warnung: Feed-Parsing-Problem bei '' @ feed_url f]
               \<and> posts (world st') = posts (world st)
               \<and> state_file (world st') = state_file (world st)
               \<and> writes (world st') = writes (world st)
               \<and> sent st' = sent st
               \<and> seen_map st' = seen_map st
               \<and> changed st' = changed st)"
  using assms by (simp add: process_feed_def bozo_warning_def)

lemma strip_u: "strip ''u'' = ''u''" "strip ''T'' = ''T''" "strip ''C'' = ''C''" "strip '' '' = []"
  by code_simp+

lemma plain_feed_url: "feed_url plain_feed = ''u''"
  by (simp add: feed_url_def plain_feed_def strip_u)

text \<open>A run over twice the same flagged feed prints the warning twice and nothing else.\<close>

theorem malformed_feed_skipped_witness:
  "process_feed bozo_env plain_feed (run_start empty_world)
     = Inr ((run_start empty_world)
              \<lparr>world := empty_world\<lparr>stdout := [''Warnung: Feed-Parsing-Problem bei u'']\<rparr>\<rparr>)
   \<and> feed_loop bozo_env [plain_feed, plain_feed] (run_start empty_world)
     = Inr ((run_start empty_world)
              \<lparr>world := empty_world\<lparr>stdout := [''Warnung: Feed-Parsing-Problem bei u'',
                                                ''Warnung: Feed-Parsing-Problem bei u'']\<rparr>\<rparr>)"
proof -
  have b: "bozo (fetch bozo_env (feed_url plain_feed))"
    by (simp add: bozo_env_def plain_env_def)
  have u: "feed_url plain_feed \<noteq> []"
    by (simp add: plain_feed_url)
  note t = malformed_feed_skipped [OF u b]
  let ?st1 = "(run_start empty_world)
              \<lparr>world := empty_world\<lparr>stdout := [''Warnung: Feed-Parsing-Problem bei u'']\<rparr>\<rparr>"
  let ?st2 = "(run_start empty_world)
              \<lparr>world := empty_world\<lparr>stdout := [''Warnung: Feed-Parsing-Problem bei u'',
                                                ''Warnung: Feed-Parsing-Problem bei u'']\<rparr>\<rparr>"
  have e: "stdout empty_world = []"
    by (simp add: empty_world_def)
  have 1: "process_feed bozo_env plain_feed (run_start empty_world) = Inr ?st1"
    using t [of "run_start empty_world"] by (simp add: plain_feed_url run_start_simps e)
  have 2: "feed_loop bozo_env [plain_feed, plain_feed] (run_start empty_world)
             = feed_loop bozo_env [plain_feed] ?st1"
    using t [of "run_start empty_world" "[plain_feed]"] by (simp add: plain_feed_url run_start_simps e)
  have 3: "feed_loop bozo_env [plain_feed] ?st1 = feed_loop bozo_env [] ?st2"
    using t [of ?st1 "[]"] by (simp add: plain_feed_url e)
  show ?thesis using 1 2 3 by simp
qed

text \<open>
  C7. Let the feeds before \<open>f\<close> and the entries of \<open>f\<close> before \<open>e\<close> be processed
  without an exception, and let \<open>telegram_send\<close> fail on the unseen, passing entry
  \<open>e\<close>. Then \<open>main\<close> ends with that exception and with the world exactly as the
  failed call left it, whatever entries and feeds come after: \<open>state.json\<close> is as
  before the run and \<open>save_json\<close> did not run. With credentials missing the
  exception is raised without any request, and no request was issued in the whole
  run; otherwise the failed request is the last one issued. Every run that ends with
  an exception leaves \<open>state.json\<close> as it was.
\<close>

theorem delivery_failure_aborts:
  assumes "feed_loop en before (run_start w) = Inr st"
    and "\<not> skipped en f"
    and "feed_entries en f = es @ e # rest"
    and "entry_loop en f es (feed_start st (feed_url f)) = Inr fs"
    and "entry_key en e \<notin> set (seen_hashes fs)"
    and "entry_passes f e"
    and "telegram_send en (entry_message f e) (world (run fs)) = Inl (err, w')"
  shows "main en (before @ f # after) w = Inl (err, w')
         \<and> state_file w' = state_file w \<and> writes w' = writes w
         \<and> (creds_missing en \<longrightarrow> err = MissingCredentials \<and> w' = world (run fs) \<and> posts w' = posts w)
         \<and> (\<not> creds_missing en \<longrightarrow> err = DeliveryFailed
              \<and> (\<exists>r. posts w' = posts (world (run fs)) @ [r] \<and> req_text r = entry_message f e))
         \<and> (\<forall>fds er wx. main en fds w = Inl (er, wx) \<longrightarrow>
               state_file wx = state_file w \<and> writes wx = writes w)"
proof -
  have pe: "process_entry en f e fs = Inl (err, w')"
    using assms(5-7) by (rule process_entry_failed)
  have "entry_loop en f (es @ e # rest) (feed_start st (feed_url f)) = Inl (err, w')"
    using assms(4) pe by (simp add: entry_loop_append)
  then have "process_feed en f st = Inl (err, w')"
    using assms(2,3) by (simp add: process_feed_entries)
  then have fl: "feed_loop en (before @ f # after) (run_start w) = Inl (err, w')"
    using assms(1) by (simp add: feed_loop_append)
  then have m: "main en (before @ f # after) w = Inl (err, w')"
    by (intro main_of_Inl) simp_all
  note i = feed_loop_Inl [OF fl]
  note s = telegram_send_Inl [OF assms(7)]
  have 1: "state_file w' = state_file w \<and> writes w' = writes w"
    using i by (simp add: run_start_simps)
  have 2: "creds_missing en \<longrightarrow> err = MissingCredentials \<and> w' = world (run fs) \<and> posts w' = posts w"
    using i s by (auto simp: run_start_simps)
  have 3: "\<not> creds_missing en \<longrightarrow> err = DeliveryFailed
              \<and> (\<exists>r. posts w' = posts (world (run fs)) @ [r] \<and> req_text r = entry_message f e)"
  proof
    assume "\<not> creds_missing en"
    with s obtain r where "err = DeliveryFailed"
      "w' = (world (run fs))\<lparr>posts := posts (world (run fs)) @ [r]\<rparr>" "req_text r = entry_message f e"
      by blast
    then show "err = DeliveryFailed
              \<and> (\<exists>r. posts w' = posts (world (run fs)) @ [r] \<and> req_text r = entry_message f e)"
      by (intro conjI exI [of _ r]) simp_all
  qed
  have 4: "\<forall>fds er wx. main en fds w = Inl (er, wx) \<longrightarrow>
               state_file wx = state_file w \<and> writes wx = writes w"
  proof (intro allI impI)
    fix fds er wx
    assume "main en fds w = Inl (er, wx)"
    from feed_loop_Inl [OF main_Inl [OF this]]
    show "state_file wx = state_file w \<and> writes wx = writes w"
      by (simp add: run_start_simps)
  qed
  show ?thesis
    using m 1 2 3 4 by blast
qed

lemma plain_feed_simps:
  "feed_max_items plain_feed = 30" "feed_include plain_feed = []" "feed_exclude plain_feed = []"
  "feed_name plain_feed = ''Feed''"
  by (simp_all add: feed_max_items_def feed_include_def feed_exclude_def feed_name_def plain_feed_def)

lemma passes_filters_no_keywords: "passes_filters title summary [] []"
  by (simp add: passes_filters_def)

theorem delivery_failure_aborts_witness:
  "main no_creds_env [plain_feed] empty_world = Inl (MissingCredentials, empty_world)
   \<and> main refusing_env [plain_feed, plain_feed] empty_world
       = Inl (DeliveryFailed,
              empty_world\<lparr>posts := [\<lparr>req_url = ''https://api.telegram.org/botT/sendMessage'',
                                     req_chat_id = ''C'',
                                     req_text = entry_message plain_feed outage_entry\<rparr>]\<rparr>)"
proof -
  let ?st = "run_start empty_world"
  let ?fs = "feed_start ?st (feed_url plain_feed)"
  have seen: "seen_hashes ?fs = []"
    by (simp add: feed_start_def run_start_def load_seen_def empty_world_def stored_def)
  have wr: "world (run ?fs) = empty_world"
    by (simp add: feed_start_def run_start_def)
  have pass: "entry_passes plain_feed outage_entry"
    by (simp add: entry_passes_def plain_feed_simps passes_filters_no_keywords)
  have a: "main no_creds_env ([] @ plain_feed # []) empty_world = Inl (MissingCredentials, empty_world)"
  proof -
    have 1: "feed_loop no_creds_env [] ?st = Inr ?st" by simp
    have 2: "\<not> skipped no_creds_env plain_feed"
      by (simp add: skipped_def plain_feed_url no_creds_env_def plain_env_def)
    have 3: "feed_entries no_creds_env plain_feed = [] @ outage_entry # []"
      by (simp add: feed_entries_def plain_feed_simps slice_to_def no_creds_env_def plain_env_def)
    have 4: "entry_loop no_creds_env plain_feed [] ?fs = Inr ?fs" by simp
    have 5: "entry_key no_creds_env outage_entry \<notin> set (seen_hashes ?fs)"
      by (simp add: seen)
    have 6: "telegram_send no_creds_env (entry_message plain_feed outage_entry) (world (run ?fs))
               = Inl (MissingCredentials, empty_world)"
      by (simp add: wr telegram_send_def no_creds_env_def plain_env_def strip_u)
    from delivery_failure_aborts [OF 1 2 3 4 5 pass 6, of "[]"] show ?thesis by blast
  qed
  have b: "main refusing_env ([] @ plain_feed # [plain_feed]) empty_world
       = Inl (DeliveryFailed,
              empty_world\<lparr>posts := [\<lparr>req_url = ''https://api.telegram.org/botT/sendMessage'',
                                     req_chat_id = ''C'',
                                     req_text = entry_message plain_feed outage_entry\<rparr>]\<rparr>)"
  proof -
    have 1: "feed_loop refusing_env [] ?st = Inr ?st" by simp
    have 2: "\<not> skipped refusing_env plain_feed"
      by (simp add: skipped_def plain_feed_url refusing_env_def plain_env_def)
    have 3: "feed_entries refusing_env plain_feed = [] @ outage_entry # []"
      by (simp add: feed_entries_def plain_feed_simps slice_to_def refusing_env_def plain_env_def)
    have 4: "entry_loop refusing_env plain_feed [] ?fs = Inr ?fs" by simp
    have 5: "entry_key refusing_env outage_entry \<notin> set (seen_hashes ?fs)"
      by (simp add: seen)
    have 6: "telegram_send refusing_env (entry_message plain_feed outage_entry) (world (run ?fs))
               = Inl (DeliveryFailed,
              empty_world\<lparr>posts := [\<lparr>req_url = ''https://api.telegram.org/botT/sendMessage'',
                                     req_chat_id = ''C'',
                                     req_text = entry_message plain_feed outage_entry\<rparr>]\<rparr>)"
      unfolding wr
      by (simp add: telegram_send_def refusing_env_def plain_env_def strip_u empty_world_def)
    from delivery_failure_aborts [OF 1 2 3 4 5 pass 6, of "[plain_feed]"] show ?thesis by blast
  qed
  show ?thesis using a b by simp
qed

section \<open>Two runs over the same entries\<close>

subsection \<open>A run that finds every entry seen\<close>

lemma seen_hashes_feed_start: "set (seen_hashes (feed_start st u)) = set (stored (seen_map st) u)"
  by (simp add: feed_start_def)

lemma process_feed_all_seen:
  assumes "all_seen en (seen_map st) f"
  shows "\<exists>st'. process_feed en f st = Inr st' \<and> seen_map st' = seen_map st
           \<and> changed st' = changed st \<and> sent st' = sent st
           \<and> posts (world st') = posts (world st) \<and> writes (world st') = writes (world st)
           \<and> state_file (world st') = state_file (world st)"
proof (cases "skipped en f")
  case True
  show ?thesis
  proof (cases "feed_url f = []")
    case True
    then show ?thesis by (simp add: process_feed_no_url)
  next
    case False
    with True have "process_feed en f st = Inr (warned st (feed_url f))"
      by (simp add: skipped_def process_feed_bozo)
    then show ?thesis by (simp add: warned_def)
  qed
next
  case False
  with assms have "entry_key en ` set (feed_entries en f)
                     \<subseteq> set (seen_hashes (feed_start st (feed_url f)))"
    by (simp add: all_seen_def seen_hashes_feed_start)
  then have "entry_loop en f (feed_entries en f) (feed_start st (feed_url f))
               = Inr (feed_start st (feed_url f))"
    by (rule entry_loop_all_seen)
  then have "process_feed en f st = Inr st"
    using False by (simp add: process_feed_entries feed_start_def)
  then show ?thesis by simp
qed

lemma feed_loop_all_seen:
  assumes "\<forall>f\<in>set fs. all_seen en (seen_map st) f"
  shows "\<exists>st'. feed_loop en fs st = Inr st' \<and> seen_map st' = seen_map st
           \<and> changed st' = changed st \<and> sent st' = sent st
           \<and> posts (world st') = posts (world st) \<and> writes (world st') = writes (world st)
           \<and> state_file (world st') = state_file (world st)"
  using assms
proof (induction fs arbitrary: st)
  case Nil
  then show ?case by simp
next
  case (Cons f fs)
  from Cons.prems have "all_seen en (seen_map st) f" by simp
  from process_feed_all_seen [OF this] obtain st1 where
    1: "process_feed en f st = Inr st1" "seen_map st1 = seen_map st"
       "changed st1 = changed st" "sent st1 = sent st"
       "posts (world st1) = posts (world st)" "writes (world st1) = writes (world st)"
       "state_file (world st1) = state_file (world st)" by blast
  from Cons.prems 1(2) have "\<forall>f\<in>set fs. all_seen en (seen_map st1) f" by simp
  from Cons.IH [OF this] obtain st' where
    2: "feed_loop en fs st1 = Inr st'" "seen_map st' = seen_map st1"
       "changed st' = changed st1" "sent st' = sent st1"
       "posts (world st') = posts (world st1)" "writes (world st') = writes (world st1)"
       "state_file (world st') = state_file (world st1)" by blast
  show ?case using 1 2 by simp
qed

lemma main_all_seen:
  assumes "\<forall>f\<in>set feeds. all_seen en (load_seen w) f"
  shows "\<exists>rc w'. main en feeds w = Inr (rc, w') \<and> posts w' = posts w \<and> writes w' = writes w
           \<and> state_file w' = state_file w"
proof (cases "feeds = []")
  case True
  then show ?thesis by (simp add: main_def)
next
  case False
  from assms have "\<forall>f\<in>set feeds. all_seen en (seen_map (run_start w)) f"
    by (simp add: run_start_simps)
  from feed_loop_all_seen [OF this] obtain st where
    "feed_loop en feeds (run_start w) = Inr st" "changed st = False"
    "posts (world st) = posts w" "writes (world st) = writes w" "state_file (world st) = state_file w"
    by (auto simp: run_start_simps)
  then show ?thesis using False by (simp add: main_def Let_def)
qed

subsection \<open>A run whose identities fit the bound\<close>

lemma last_400_short: "length xs \<le> 400 \<Longrightarrow> last_400 xs = xs"
  by (simp add: last_400_def)

lemma length_le_distinct:
  assumes "distinct xs" "distinct ys" "set xs \<subseteq> set ys"
  shows "length xs \<le> length ys"
proof -
  have "length xs = card (set xs)" using assms(1) by (simp add: distinct_card)
  also have "\<dots> \<le> card (set ys)" using assms(3) by (simp add: card_mono)
  also have "\<dots> = length ys" using assms(2) by (rule distinct_card)
  finally show ?thesis .
qed

lemma distinct_known: "distinct (known en feeds m u)"
  by (simp add: known_def)

lemma known_stored: "set (stored m u) \<subseteq> set (known en feeds m u)"
  by (simp add: known_def)

lemma known_looped:
  assumes "f \<in> set feeds" "\<not> skipped en f"
  shows "entry_key en ` set (feed_entries en f) \<subseteq> set (known en feeds m (feed_url f))"
proof -
  have "set (map (entry_key en) (feed_entries en f)) \<subseteq> set (looped en feeds (feed_url f))"
    using assms by (auto simp: looped_def)
  then show ?thesis by (auto simp: known_def)
qed

text \<open>
  One feed of such a run, with \<open>K\<close> a bound on what may be stored for a URL: the stored
  sets stay within the bound, only grow, and hold every identity of the feed's entries
  afterwards.
\<close>

lemma process_feed_fits:
  assumes ls: "lists_sets en"
    and pf: "process_feed en f st = Inr st'"
    and inv: "\<forall>u. set (stored (seen_map st) u) \<subseteq> set (K u)"
    and fit: "\<not> skipped en f \<longrightarrow>
                distinct (K (feed_url f)) \<and> length (K (feed_url f)) \<le> 400
                \<and> entry_key en ` set (feed_entries en f) \<subseteq> set (K (feed_url f))"
  shows "(\<forall>u. set (stored (seen_map st') u) \<subseteq> set (K u))
         \<and> (\<forall>u. set (stored (seen_map st) u) \<subseteq> set (stored (seen_map st') u))
         \<and> all_seen en (seen_map st') f"
proof (cases "skipped en f")
  case True
  have "seen_map st' = seen_map st"
  proof (cases "feed_url f = []")
    case True
    with pf show ?thesis by (simp add: process_feed_no_url)
  next
    case False
    with True pf have "st' = warned st (feed_url f)"
      by (simp add: skipped_def process_feed_bozo)
    then show ?thesis by (simp add: warned_def)
  qed
  with True inv show ?thesis by (simp add: all_seen_def)
next
  case False
  let ?u = "feed_url f"
  from fit False have dK: "distinct (K ?u)" and lK: "length (K ?u) \<le> 400"
    and sub: "entry_key en ` set (feed_entries en f) \<subseteq> set (K ?u)" by simp_all
  note pfe = process_feed_entries [OF False, of st]
  from pf pfe obtain fs where el: "entry_loop en f (feed_entries en f) (feed_start st ?u) = Inr fs"
    by (auto split: sum.splits)
  note l = entry_loop_Inr [OF el]
  from l obtain ks where ks: "seen_hashes fs = seen_hashes (feed_start st ?u) @ ks"
    "new_hashes fs = new_hashes (feed_start st ?u) @ ks"
    "set ks \<subseteq> entry_key en ` set (feed_entries en f)" by blast
  have keys: "entry_key en ` set (feed_entries en f) \<subseteq> set (seen_hashes fs)"
    using l by blast
  have "distinct (seen_hashes (feed_start st ?u))"
    by (simp add: feed_start_def)
  with l have d: "distinct (seen_hashes fs)" by blast
  have "run (feed_start st ?u) = st"
    by (simp add: feed_start_def)
  with l have r: "seen_map (run fs) = seen_map st" by simp
  have seen_eq: "set (seen_hashes fs) = set (stored (seen_map st) ?u) \<union> set ks"
    using ks(1) by (simp add: feed_start_def)
  have within: "set (seen_hashes fs) \<subseteq> set (K ?u)"
    using seen_eq inv [rule_format, of ?u] ks(3) sub by blast
  show ?thesis
  proof (cases "new_hashes fs = []")
    case True
    then have "ks = []" using ks(2) by (simp add: feed_start_def)
    then have "entry_key en ` set (feed_entries en f) \<subseteq> set (stored (seen_map st) ?u)"
      using keys seen_eq by simp
    moreover from True pf pfe el have "st' = run fs" by simp
    ultimately show ?thesis using r inv by (simp add: all_seen_def)
  next
    case new: False
    let ?xs = "set_order en (seen_hashes fs)"
    from new pf pfe el have st': "seen_map st' = (seen_map st)(?u \<mapsto> last_400 ?xs)"
      using r by auto
    have o: "distinct ?xs" "set ?xs = set (seen_hashes fs)"
      using ls d by (simp_all add: lists_sets_def)
    have "length ?xs \<le> length (K ?u)"
      using o within dK by (intro length_le_distinct) simp_all
    then have "last_400 ?xs = ?xs"
      using lK by (intro last_400_short) simp
    then have su: "stored (seen_map st') ?u = ?xs"
      and so: "\<And>u. u \<noteq> ?u \<Longrightarrow> stored (seen_map st') u = stored (seen_map st) u"
      using st' by (simp_all add: stored_def)
    have 1: "\<forall>u. set (stored (seen_map st') u) \<subseteq> set (K u)"
    proof
      fix u
      show "set (stored (seen_map st') u) \<subseteq> set (K u)"
        using su so [of u] o within inv [rule_format, of u] by (cases "u = ?u") simp_all
    qed
    have 2: "\<forall>u. set (stored (seen_map st) u) \<subseteq> set (stored (seen_map st') u)"
    proof
      fix u
      show "set (stored (seen_map st) u) \<subseteq> set (stored (seen_map st') u)"
        using su so [of u] o seen_eq by (cases "u = ?u") simp_all
    qed
    have 3: "all_seen en (seen_map st') f"
      using su o keys by (simp add: all_seen_def)
    show ?thesis using 1 2 3 by blast
  qed
qed

lemma all_seen_mono:
  "all_seen en m f \<Longrightarrow> \<forall>u. set (stored m u) \<subseteq> set (stored m' u) \<Longrightarrow> all_seen en m' f"
  by (auto simp: all_seen_def)

lemma feed_loop_fits:
  assumes ls: "lists_sets en"
    and fl: "feed_loop en fs st = Inr st'"
    and inv: "\<forall>u. set (stored (seen_map st) u) \<subseteq> set (K u)"
    and fit: "\<forall>f\<in>set fs. \<not> skipped en f \<longrightarrow>
                distinct (K (feed_url f)) \<and> length (K (feed_url f)) \<le> 400
                \<and> entry_key en ` set (feed_entries en f) \<subseteq> set (K (feed_url f))"
  shows "(\<forall>u. set (stored (seen_map st') u) \<subseteq> set (K u))
         \<and> (\<forall>u. set (stored (seen_map st) u) \<subseteq> set (stored (seen_map st') u))
         \<and> (\<forall>f\<in>set fs. all_seen en (seen_map st') f)"
  using fl inv fit
proof (induction fs arbitrary: st)
  case Nil
  then show ?case by simp
next
  case (Cons f fs)
  from Cons.prems(1) obtain st1 where
    1: "process_feed en f st = Inr st1" and 2: "feed_loop en fs st1 = Inr st'"
    by (auto split: sum.splits)
  from Cons.prems(3) have fit1: "\<not> skipped en f \<longrightarrow>
                distinct (K (feed_url f)) \<and> length (K (feed_url f)) \<le> 400
                \<and> entry_key en ` set (feed_entries en f) \<subseteq> set (K (feed_url f))"
    and fit2: "\<forall>f\<in>set fs. \<not> skipped en f \<longrightarrow>
                distinct (K (feed_url f)) \<and> length (K (feed_url f)) \<le> 400
                \<and> entry_key en ` set (feed_entries en f) \<subseteq> set (K (feed_url f))" by simp_all
  note a = process_feed_fits [OF ls 1 Cons.prems(2) fit1]
  from a have inv1: "\<forall>u. set (stored (seen_map st1) u) \<subseteq> set (K u)" by blast
  note b = Cons.IH [OF 2 inv1 fit2]
  have mono: "\<forall>u. set (stored (seen_map st) u) \<subseteq> set (stored (seen_map st') u)"
    using a b by blast
  have "all_seen en (seen_map st') f"
    using a b all_seen_mono [of en "seen_map st1" f "seen_map st'"] by blast
  then show ?case using b mono by simp
qed

text \<open>After a run whose identities fit, the stored state covers every feed.\<close>

lemma main_fits:
  assumes "lists_sets en" "fits en feeds (load_seen w)" "main en feeds w = Inr (rc, w1)"
  shows "\<forall>f\<in>set feeds. all_seen en (load_seen w1) f"
proof (cases "feeds = []")
  case True
  then show ?thesis by simp
next
  case False
  with main_Inr [OF assms(3)] obtain st where
    st: "feed_loop en feeds (run_start w) = Inr st" "load_seen w1 = seen_map st" by auto
  let ?K = "known en feeds (load_seen w)"
  have inv: "\<forall>u. set (stored (seen_map (run_start w)) u) \<subseteq> set (?K u)"
    by (simp add: run_start_simps known_stored)
  have fit: "\<forall>f\<in>set feeds. \<not> skipped en f \<longrightarrow>
                distinct (?K (feed_url f)) \<and> length (?K (feed_url f)) \<le> 400
                \<and> entry_key en ` set (feed_entries en f) \<subseteq> set (?K (feed_url f))"
    using assms(2) known_looped [of _ feeds en "load_seen w"]
    by (simp add: fits_def distinct_known)
  from feed_loop_fits [OF assms(1) st(1) inv fit] st(2) show ?thesis by simp
qed

lemma all_seen_same_feeds: "same_feeds en en' \<Longrightarrow> all_seen en' m f = all_seen en m f"
  by (simp add: same_feeds_def all_seen_def skipped_def feed_entries_def entry_key_def)

lemma second_run:
  assumes "lists_sets en" "fits en feeds (load_seen w)" "main en feeds w = Inr (rc, w1)"
    "same_feeds en en'"
  shows "(\<forall>f\<in>set feeds. all_seen en' (load_seen w1) f)
         \<and> (\<exists>rc' w2. main en' feeds w1 = Inr (rc', w2) \<and> posts w2 = posts w1
               \<and> writes w2 = writes w1 \<and> state_file w2 = state_file w1)"
proof -
  from main_fits [OF assms(1-3)] have "\<forall>f\<in>set feeds. all_seen en (load_seen w1) f" .
  then have a: "\<forall>f\<in>set feeds. all_seen en' (load_seen w1) f"
    using all_seen_same_feeds [OF assms(4)] by simp
  from main_all_seen [OF a] a show ?thesis by blast
qed

text \<open>
  C4, as amended. Let \<open>list(s)\<close> yield every element of a set once, and let, for
  every feed that is not skipped, the identities stored for its URL together with
  those of the entries that the run loops over for this URL number at most 400. If a
  run returns, then a second run from the state it left, over the same feeds and
  entries, returns too, issues no request and does not write \<open>state.json\<close>.
\<close>

theorem second_run_idle:
  assumes "lists_sets en" "fits en feeds (load_seen w)" "main en feeds w = Inr (rc, w1)"
    "same_feeds en en'"
  shows "\<exists>rc' w2. main en' feeds w1 = Inr (rc', w2) \<and> posts w2 = posts w1
           \<and> writes w2 = writes w1 \<and> state_file w2 = state_file w1"
  using second_run [OF assms] by blast

text \<open>
  C6, as amended. An unseen entry whose step returns is in \<open>seen_hashes\<close> and in
  \<open>new_hashes\<close> afterwards, whether the filter passes or not. The step of an entry
  that fails the filter always returns and leaves the run state (requests, count of
  sent messages) as it was, in every run. The step of an entry that is already seen
  changes nothing. And under the conditions of C4 as amended, every entry a feed's
  iteration looped over is stored for the feed's URL after the run, so that the next
  run skips it at the start of that feed's iteration and issues no request.
\<close>

theorem filtered_entry_stays_seen:
  "(entry_key en e \<notin> set (seen_hashes fs) \<and> process_entry en f e fs = Inr fs' \<longrightarrow>
      entry_key en e \<in> set (seen_hashes fs') \<and> entry_key en e \<in> set (new_hashes fs'))
   \<and> (\<not> entry_passes f e \<longrightarrow> (\<exists>fs'. process_entry en f e fs = Inr fs' \<and> run fs' = run fs))
   \<and> (entry_key en e \<in> set (seen_hashes fs) \<longrightarrow> process_entry en f e fs = Inr fs)
   \<and> (lists_sets en \<and> fits en feeds (load_seen w) \<and> main en feeds w = Inr (rc, w1)
        \<and> same_feeds en en' \<and> f \<in> set feeds \<and> \<not> skipped en f \<and> e \<in> set (feed_entries en f) \<longrightarrow>
          entry_key en' e \<in> set (stored (load_seen w1) (feed_url f))
          \<and> (\<forall>st. seen_map st = load_seen w1 \<longrightarrow>
                process_entry en' f e (feed_start st (feed_url f)) = Inr (feed_start st (feed_url f)))
          \<and> (\<exists>rc' w2. main en' feeds w1 = Inr (rc', w2) \<and> posts w2 = posts w1))"
proof (intro conjI impI)
  assume a: "entry_key en e \<notin> set (seen_hashes fs) \<and> process_entry en f e fs = Inr fs'"
  then have pe: "process_entry en f e fs = Inr fs'" by simp
  from process_entry_Inr [OF pe] obtain ks where
    k: "entry_key en e \<in> set (seen_hashes fs')" "seen_hashes fs' = seen_hashes fs @ ks"
       "new_hashes fs' = new_hashes fs @ ks" by blast
  from k(1,2) a have "entry_key en e \<in> set ks" by simp
  with k show "entry_key en e \<in> set (seen_hashes fs')" "entry_key en e \<in> set (new_hashes fs')"
    by simp_all
next
  assume "\<not> entry_passes f e"
  then show "\<exists>fs'. process_entry en f e fs = Inr fs' \<and> run fs' = run fs"
    by (cases "entry_key en e \<in> set (seen_hashes fs)")
       (simp_all add: process_entry_seen process_entry_filtered)
next
  assume "entry_key en e \<in> set (seen_hashes fs)"
  then show "process_entry en f e fs = Inr fs" by (rule process_entry_seen)
next
  assume a: "lists_sets en \<and> fits en feeds (load_seen w) \<and> main en feeds w = Inr (rc, w1)
        \<and> same_feeds en en' \<and> f \<in> set feeds \<and> \<not> skipped en f \<and> e \<in> set (feed_entries en f)"
  then have sr: "(\<forall>f\<in>set feeds. all_seen en' (load_seen w1) f)
         \<and> (\<exists>rc' w2. main en' feeds w1 = Inr (rc', w2) \<and> posts w2 = posts w1
               \<and> writes w2 = writes w1 \<and> state_file w2 = state_file w1)"
    by (intro second_run [of en feeds w rc w1 en']) simp_all
  from a have same: "skipped en' f = skipped en f" "feed_entries en' f = feed_entries en f"
    by (simp_all add: same_feeds_def skipped_def feed_entries_def)
  from sr a have "all_seen en' (load_seen w1) f" by blast
  with a same show k: "entry_key en' e \<in> set (stored (load_seen w1) (feed_url f))"
    by (auto simp: all_seen_def)
  show "\<forall>st. seen_map st = load_seen w1 \<longrightarrow>
          process_entry en' f e (feed_start st (feed_url f)) = Inr (feed_start st (feed_url f))"
    using k by (simp add: process_entry_seen seen_hashes_feed_start)
  from sr show "\<exists>rc' w2. main en' feeds w1 = Inr (rc', w2) \<and> posts w2 = posts w1" by blast
qed

lemma show_nat_digits: "show_nat 1 = ''1''" "show_nat 0 = ''0''" "show_nat (Suc 0) = ''1''"
  by code_simp+

lemma lists_sets_plain: "lists_sets plain_env"
  by (simp add: lists_sets_def plain_env_def)

lemma length_slice_to: "length (slice_to n xs) \<le> length xs"
  by (simp add: slice_to_def)

lemma fits_plain: "fits plain_env [f] (load_seen empty_world)"
proof -
  have "length (feed_entries plain_env f) \<le> 1"
    using length_slice_to [of "feed_max_items f" "[outage_entry]"]
    by (simp add: feed_entries_def plain_env_def)
  moreover have "length (remdups (map (entry_key plain_env) (feed_entries plain_env f)))
                   \<le> length (feed_entries plain_env f)"
    using length_remdups_leq [of "map (entry_key plain_env) (feed_entries plain_env f)"] by simp
  ultimately show ?thesis
    by (simp add: fits_def known_def looped_def load_seen_def empty_world_def stored_def)
qed

lemma plain_run: "main plain_env [plain_feed] empty_world = Inr (0, plain_world1)"
proof -
  have pass: "entry_passes plain_feed outage_entry"
    by (simp add: entry_passes_def plain_feed_simps passes_filters_no_keywords)
  have ts: "telegram_send plain_env (entry_message plain_feed outage_entry) empty_world
              = Inr (empty_world\<lparr>posts := [\<lparr>req_url = ''https://api.telegram.org/botT/sendMessage'',
                       req_chat_id = ''C'', req_text = entry_message plain_feed outage_entry\<rparr>]\<rparr>)"
    by (simp add: telegram_send_def plain_env_def strip_u empty_world_def)
  have fe: "feed_entries plain_env plain_feed = [outage_entry]"
    by (simp add: feed_entries_def plain_feed_simps slice_to_def plain_env_def)
  have sk: "\<not> skipped plain_env plain_feed"
    by (simp add: skipped_def plain_feed_url plain_env_def)
  have le: "load_seen empty_world = Map.empty"
    by (simp add: load_seen_def empty_world_def)
  have fs: "feed_start (run_start empty_world) ''u''
              = \<lparr>seen_hashes = [], new_hashes = [], run = run_start empty_world\<rparr>"
    by (simp add: feed_start_def run_start_simps le stored_def)
  have pe: "process_entry plain_env plain_feed outage_entry
              \<lparr>seen_hashes = [], new_hashes = [], run = run_start empty_world\<rparr>
            = Inr \<lparr>seen_hashes = [entry_key plain_env outage_entry],
                   new_hashes = [entry_key plain_env outage_entry],
                   run = (run_start empty_world)\<lparr>sent := 1,
                     world := empty_world\<lparr>posts := [\<lparr>req_url = ''https://api.telegram.org/botT/sendMessage'',
                       req_chat_id = ''C'', req_text = entry_message plain_feed outage_entry\<rparr>]\<rparr>\<rparr>\<rparr>"
    using process_entry_sent [of plain_env outage_entry
            "\<lparr>seen_hashes = [], new_hashes = [], run = run_start empty_world\<rparr>" plain_feed, OF _ pass]
          ts
    by (simp add: run_start_simps)
  have el: "entry_loop plain_env plain_feed (feed_entries plain_env plain_feed)
              (feed_start (run_start empty_world) (feed_url plain_feed))
            = Inr \<lparr>seen_hashes = [entry_key plain_env outage_entry],
                   new_hashes = [entry_key plain_env outage_entry],
                   run = (run_start empty_world)\<lparr>sent := 1,
                     world := empty_world\<lparr>posts := [\<lparr>req_url = ''https://api.telegram.org/botT/sendMessage'',
                       req_chat_id = ''C'', req_text = entry_message plain_feed outage_entry\<rparr>]\<rparr>\<rparr>\<rparr>"
    unfolding fe plain_feed_url fs by (simp add: pe)
  have so: "set_order plain_env xs = xs" for xs
    by (simp add: plain_env_def)
  have pf: "process_feed plain_env plain_feed (run_start empty_world)
              = Inr ((run_start empty_world)\<lparr>sent := 1,
                     world := empty_world\<lparr>posts := [\<lparr>req_url = ''https://api.telegram.org/botT/sendMessage'',
                       req_chat_id = ''C'', req_text = entry_message plain_feed outage_entry\<rparr>]\<rparr>,
                     seen_map := [''u'' \<mapsto> [entry_key plain_env outage_entry]],
                     changed := True\<rparr>)"
    unfolding process_feed_entries [OF sk] el
    by (simp add: plain_feed_url so last_400_def run_start_simps le)
  have fl: "feed_loop plain_env [plain_feed] (run_start empty_world)
              = Inr ((run_start empty_world)\<lparr>sent := 1,
                     world := empty_world\<lparr>posts := [\<lparr>req_url = ''https://api.telegram.org/botT/sendMessage'',
                       req_chat_id = ''C'', req_text = entry_message plain_feed outage_entry\<rparr>]\<rparr>,
                     seen_map := [''u'' \<mapsto> [entry_key plain_env outage_entry]],
                     changed := True\<rparr>)"
    by (simp add: pf)
  show ?thesis
    unfolding main_def fl
    by (simp add: Let_def plain_world1_def empty_world_def show_nat_digits)
qed

text \<open>
  A run that sends one message, and a second run under a transport that would refuse
  every request: it issues none.
\<close>

theorem second_run_idle_witness:
  "main plain_env [plain_feed] empty_world = Inr (0, plain_world1)
   \<and> length (posts plain_world1) = 1
   \<and> (\<exists>rc' w2. main refusing_env [plain_feed] plain_world1 = Inr (rc', w2)
         \<and> posts w2 = posts plain_world1 \<and> writes w2 = writes plain_world1
         \<and> state_file w2 = state_file plain_world1)"
proof -
  have s: "same_feeds plain_env refusing_env"
    by (simp add: same_feeds_def refusing_env_def)
  from second_run_idle [OF lists_sets_plain fits_plain plain_run s] plain_run
  show ?thesis by (simp add: plain_world1_def)
qed

section \<open>Runs in which every request succeeds\<close>

lemma fresh_all_seen: "set ks \<subseteq> set seen \<Longrightarrow> fresh seen ks = []"
  by (induction ks) auto

lemma fresh_all_new: "distinct ks \<Longrightarrow> set ks \<inter> set seen = {} \<Longrightarrow> fresh seen ks = ks"
  by (induction ks arbitrary: seen) auto

lemma sends_all_seen: "entry_key en ` set es \<subseteq> set seen \<Longrightarrow> sends en f seen es = 0"
  by (induction es) auto

lemma sends_all_new:
  "distinct (map (entry_key en) es) \<Longrightarrow> entry_key en ` set es \<inter> set seen = {} \<Longrightarrow>
     sends en f seen es = length (filter (entry_passes f) es)"
  by (induction es arbitrary: seen) auto

lemma telegram_send_delivers:
  assumes "delivers en"
  shows "\<exists>r. telegram_send en text w = Inr (w\<lparr>posts := posts w @ [r]\<rparr>)"
proof (cases "telegram_send en text w")
  case (Inl x)
  then obtain err w' where "telegram_send en text w = Inl (err, w')" by (cases x) simp
  from telegram_send_Inl [OF this] assms show ?thesis by (auto simp: delivers_def)
next
  case (Inr w')
  from telegram_send_Inr [OF Inr] Inr show ?thesis by blast
qed

lemma process_entry_delivers:
  assumes "delivers en"
  shows "\<exists>fs'. process_entry en f e fs = Inr fs'
           \<and> (if entry_key en e \<in> set (seen_hashes fs) then fs' = fs
               else seen_hashes fs' = seen_hashes fs @ [entry_key en e]
                    \<and> new_hashes fs' = new_hashes fs @ [entry_key en e]
                    \<and> length (posts (world (run fs')))
                        = length (posts (world (run fs))) + (if entry_passes f e then 1 else 0))"
proof (cases rule: process_entry_cases [of en e fs f])
  case seen
  then show ?thesis by simp
next
  case filtered
  then show ?thesis by simp
next
  case (sent w')
  from telegram_send_delivers [OF assms, of "entry_message f e" "world (run fs)"] sent(3)
  obtain r where "w' = (world (run fs))\<lparr>posts := posts (world (run fs)) @ [r]\<rparr>" by auto
  with sent show ?thesis by simp
next
  case (failed x)
  with telegram_send_delivers [OF assms, of "entry_message f e" "world (run fs)"]
  show ?thesis by auto
qed

lemma entry_loop_delivers:
  assumes "delivers en"
  shows "\<exists>fs'. entry_loop en f es fs = Inr fs'
           \<and> seen_hashes fs' = seen_hashes fs @ fresh (seen_hashes fs) (map (entry_key en) es)
           \<and> new_hashes fs' = new_hashes fs @ fresh (seen_hashes fs) (map (entry_key en) es)
           \<and> length (posts (world (run fs')))
               = length (posts (world (run fs))) + sends en f (seen_hashes fs) es"
proof (induction es arbitrary: fs)
  case Nil
  then show ?case by simp
next
  case (Cons e es)
  from process_entry_delivers [OF assms, of f e fs] obtain fs1 where
    1: "process_entry en f e fs = Inr fs1"
    and 2: "if entry_key en e \<in> set (seen_hashes fs) then fs1 = fs
               else seen_hashes fs1 = seen_hashes fs @ [entry_key en e]
                    \<and> new_hashes fs1 = new_hashes fs @ [entry_key en e]
                    \<and> length (posts (world (run fs1)))
                        = length (posts (world (run fs))) + (if entry_passes f e then 1 else 0)"
    by blast
  from Cons.IH [of fs1] obtain fs' where
    3: "entry_loop en f es fs1 = Inr fs'"
       "seen_hashes fs' = seen_hashes fs1 @ fresh (seen_hashes fs1) (map (entry_key en) es)"
       "new_hashes fs' = new_hashes fs1 @ fresh (seen_hashes fs1) (map (entry_key en) es)"
       "length (posts (world (run fs')))
               = length (posts (world (run fs1))) + sends en f (seen_hashes fs1) es"
    by blast
  have l: "entry_loop en f (e # es) fs = Inr fs'"
    using 1 3(1) by simp
  show ?case
  proof (cases "entry_key en e \<in> set (seen_hashes fs)")
    case True
    with 2 have "fs1 = fs" by simp
    with True l 3 show ?thesis by simp
  next
    case False
    with 2 have "seen_hashes fs1 = seen_hashes fs @ [entry_key en e]"
      "new_hashes fs1 = new_hashes fs @ [entry_key en e]"
      "length (posts (world (run fs1)))
         = length (posts (world (run fs))) + (if entry_passes f e then 1 else 0)"
      by simp_all
    with False l 3 show ?thesis by simp
  qed
qed

text \<open>A run over one feed that is not skipped, every request succeeding.\<close>

lemma main_single_delivers:
  assumes "delivers en" "\<not> skipped en f"
    and old_def: "old = remdups (stored (load_seen w) (feed_url f))"
    and ks_def: "ks = fresh old (map (entry_key en) (feed_entries en f))"
  shows "\<exists>w'. main en [f] w = Inr (0, w')
           \<and> length (posts w') = length (posts w) + sends en f old (feed_entries en f)
           \<and> writes w' = (if ks = [] then writes w else writes w + 1)
           \<and> load_seen w' = (if ks = [] then load_seen w
                              else (load_seen w)(feed_url f \<mapsto> last_400 (set_order en (old @ ks))))"
proof -
  let ?u = "feed_url f"
  let ?st = "run_start w"
  have s0: "seen_hashes (feed_start ?st ?u) = old" "new_hashes (feed_start ?st ?u) = []"
    "run (feed_start ?st ?u) = ?st"
    by (simp_all add: feed_start_def old_def run_start_simps)
  from entry_loop_delivers [OF assms(1), of f "feed_entries en f" "feed_start ?st ?u"]
  obtain fs where
    el: "entry_loop en f (feed_entries en f) (feed_start ?st ?u) = Inr fs"
      and sh: "seen_hashes fs = old @ ks" and nh: "new_hashes fs = ks"
      and po: "length (posts (world (run fs))) = length (posts w) + sends en f old (feed_entries en f)"
    unfolding s0 ks_def by (auto simp: run_start_simps)
  note l = entry_loop_Inr [OF el]
  have fr: "seen_map (run fs) = load_seen w" "state_file (world (run fs)) = state_file w"
    "writes (world (run fs)) = writes w"
    using l by (simp_all add: s0 run_start_simps)
  show ?thesis
  proof (cases "ks = []")
    case True
    then have "process_feed en f ?st = Inr (run fs)"
      using el nh by (simp add: process_feed_entries [OF assms(2)])
    moreover have "changed (run fs) = False"
      using l by (simp add: s0 run_start_simps)
    ultimately show ?thesis
      using True po fr by (simp add: main_def Let_def load_seen_def)
  next
    case False
    then have "process_feed en f ?st
                 = Inr ((run fs)\<lparr>seen_map := (seen_map (run fs))(?u \<mapsto> last_400 (set_order en (old @ ks))),
                                 changed := True\<rparr>)"
      using el nh sh by (simp add: process_feed_entries [OF assms(2)])
    then show ?thesis
      using False po fr by (simp add: main_def Let_def load_seen_def)
  qed
qed

section \<open>A feed of 401 entries\<close>

lemma x_not_space: "\<not> isspace CHR ''x''"
  by (simp add: isspace_def)

lemma joined_parts_big: "joined_parts (big_entry i) = big_key i"
proof -
  have p: "entry_parts (big_entry i) = [replicate i CHR ''x'', [], [], [], [], []]"
    by (simp add: entry_parts_def identity_fields_def dict_get_def big_entry_def)
  have j: "join ''||'' [replicate i CHR ''x'', [], [], [], [], []] = big_key i"
    by (simp add: big_key_def)
  have h: "\<not> isspace (hd (big_key i))"
    using x_not_space bar_not_space by (cases i) (simp_all add: big_key_def)
  have l: "\<not> isspace (last (big_key i))"
    using bar_not_space by (simp add: big_key_def)
  have "strip (big_key i) = big_key i"
    using h l by (intro strip_id) blast
  then show ?thesis unfolding joined_parts_def p j .
qed

lemma entry_key_big: "entry_key big_env (big_entry i) = big_key i"
  by (simp add: entry_key_def make_entry_key_joined joined_parts_big big_env_def plain_env_def)

lemma big_key_inj: "big_key i = big_key j \<Longrightarrow> i = j"
proof -
  assume "big_key i = big_key j"
  then have "length (big_key i) = length (big_key j)" by simp
  then show "i = j" by (simp add: big_key_def)
qed

lemma distinct_big_keys: "distinct (map big_key [a..<b])"
  by (simp add: distinct_map inj_on_def) (use big_key_inj in blast)

lemma map_entry_key_big: "map (entry_key big_env) (map big_entry xs) = map big_key xs"
  by (simp add: entry_key_big)

lemma delivers_big: "delivers big_env"
  by (simp add: delivers_def creds_missing_def big_env_def plain_env_def strip_u)

lemma set_order_big: "set_order big_env xs = xs"
  by (simp add: big_env_def plain_env_def)

lemma open_feed_simps:
  "feed_url open_feed = ''u''" "feed_max_items open_feed = 500"
  "feed_include open_feed = []" "feed_exclude open_feed = []"
  by (simp_all add: open_feed_def feed_url_def feed_max_items_def feed_include_def
        feed_exclude_def plain_feed_def strip_u)

lemma shut_feed_simps:
  "feed_url shut_feed = ''u''" "feed_max_items shut_feed = 500"
  "feed_include shut_feed = [''sports'']" "feed_exclude shut_feed = []"
  by (simp_all add: shut_feed_def open_feed_def feed_url_def feed_max_items_def feed_include_def
        feed_exclude_def plain_feed_def strip_u)

lemma feed_entries_big:
  "feed_entries big_env open_feed = map big_entry [0..<401]"
  "feed_entries big_env shut_feed = map big_entry [0..<401]"
  by (simp_all add: feed_entries_def open_feed_simps shut_feed_simps slice_to_def big_env_def)

lemma not_skipped_big: "\<not> skipped big_env open_feed" "\<not> skipped big_env shut_feed"
  by (simp_all add: skipped_def open_feed_simps shut_feed_simps big_env_def)

lemma open_feed_passes: "entry_passes open_feed e"
  by (simp add: entry_passes_def open_feed_simps passes_filters_no_keywords)

lemma no_sports: "\<not> passes_filters [] [] [''sports''] []"
  by code_simp

lemma strip_Nil: "strip [] = []"
  by (simp add: strip_def)

lemma shut_feed_fails: "\<not> entry_passes shut_feed (big_entry i)"
proof -
  have "entry_title (big_entry i) = []" "entry_summary (big_entry i) = []"
    by (simp_all add: entry_title_def entry_summary_def dict_get_def py_or_def big_entry_def strip_Nil)
  then show ?thesis
    by (simp add: entry_passes_def shut_feed_simps no_sports)
qed

lemma upt_401: "[0..<401] = 0 # [1..<401]"
  by (simp add: upt_conv_Cons)

lemma last_400_big: "last_400 (map big_key [0..<401]) = map big_key [1..<401]"
  by (simp add: last_400_def drop_map drop_upt)

lemma big_key_0_new: "big_key 0 \<notin> set (map big_key [1..<401])"
  by (auto dest: big_key_inj)

text \<open>The first run over the 401 entries, and the run after it.\<close>

lemma big_first_run:
  assumes "f = open_feed \<or> f = shut_feed"
  shows "\<exists>w1. main big_env [f] empty_world = Inr (0, w1)
           \<and> length (posts w1) = length (filter (entry_passes f) (map big_entry [0..<401]))
           \<and> writes w1 = 1 \<and> posts empty_world = []
           \<and> load_seen w1 = [''u'' \<mapsto> map big_key [1..<401]]"
proof -
  have u: "feed_url f = ''u''" and sk: "\<not> skipped big_env f"
    and fe: "feed_entries big_env f = map big_entry [0..<401]"
    using assms open_feed_simps shut_feed_simps not_skipped_big feed_entries_big by auto
  have le: "load_seen empty_world = Map.empty" "writes empty_world = 0" "posts empty_world = []"
    by (simp_all add: load_seen_def empty_world_def)
  have old: "[] = remdups (stored (load_seen empty_world) (feed_url f))"
    by (simp add: le stored_def)
  have ks: "map big_key [0..<401] = fresh [] (map (entry_key big_env) (feed_entries big_env f))"
    unfolding fe map_entry_key_big by (simp add: fresh_all_new distinct_big_keys)
  have d: "distinct (map (entry_key big_env) (map big_entry [0..<401]))"
    unfolding map_entry_key_big by (rule distinct_big_keys)
  have se: "sends big_env f [] (feed_entries big_env f)
              = length (filter (entry_passes f) (map big_entry [0..<401]))"
    unfolding fe by (rule sends_all_new [OF d]) simp
  have ne: "map big_key [0..<401] \<noteq> []"
    by (simp add: upt_401)
  from main_single_delivers [OF delivers_big sk old ks]
  obtain w1 where "main big_env [f] empty_world = Inr (0, w1)"
    "length (posts w1) = length (posts empty_world) + sends big_env f [] (feed_entries big_env f)"
    "writes w1 = (if map big_key [0..<401] = [] then writes empty_world else writes empty_world + 1)"
    "load_seen w1 = (if map big_key [0..<401] = [] then load_seen empty_world
                     else (load_seen empty_world)
                            (feed_url f \<mapsto> last_400 (set_order big_env ([] @ map big_key [0..<401]))))"
    by blast
  then show ?thesis
    using ne by (simp add: se le u set_order_big last_400_big)
qed

lemma big_second_run:
  assumes "f = open_feed \<or> f = shut_feed"
    and "load_seen w1 = [''u'' \<mapsto> map big_key [1..<401]]"
  shows "\<exists>w2. main big_env [f] w1 = Inr (0, w2)
           \<and> length (posts w2) = length (posts w1) + (if entry_passes f (big_entry 0) then 1 else 0)
           \<and> writes w2 = writes w1 + 1"
proof -
  have u: "feed_url f = ''u''" and sk: "\<not> skipped big_env f"
    and fe: "feed_entries big_env f = map big_entry [0..<401]"
    using assms(1) open_feed_simps shut_feed_simps not_skipped_big feed_entries_big by auto
  let ?old = "map big_key [1..<401]"
  have old: "?old = remdups (stored (load_seen w1) (feed_url f))"
    by (simp add: assms(2) u stored_def distinct_big_keys distinct_remdups_id)
  have k: "map (entry_key big_env) (feed_entries big_env f) = big_key 0 # ?old"
    unfolding fe map_entry_key_big by (simp add: upt_401)
  have "fresh (?old @ [big_key 0]) ?old = []"
    by (rule fresh_all_seen) auto
  then have ks: "[big_key 0] = fresh ?old (map (entry_key big_env) (feed_entries big_env f))"
    unfolding k using big_key_0_new by simp
  have fe': "feed_entries big_env f = big_entry 0 # map big_entry [1..<401]"
    unfolding fe by (simp add: upt_401)
  have "entry_key big_env ` set (map big_entry [1..<401]) \<subseteq> set (?old @ [big_key 0])"
    by (auto simp: entry_key_big)
  then have "sends big_env f (?old @ [big_key 0]) (map big_entry [1..<401]) = 0"
    by (rule sends_all_seen)
  then have se: "sends big_env f ?old (feed_entries big_env f)
                   = (if entry_passes f (big_entry 0) then 1 else 0)"
    unfolding fe' using big_key_0_new by (simp add: entry_key_big)
  from main_single_delivers [OF delivers_big sk old ks]
  obtain w2 where "main big_env [f] w1 = Inr (0, w2)"
    "length (posts w2) = length (posts w1) + sends big_env f ?old (feed_entries big_env f)"
    "writes w2 = (if [big_key 0] = [] then writes w1 else writes w1 + 1)"
    by blast
  then show ?thesis using se by simp
qed

lemma length_big_sent:
  "length (filter (entry_passes open_feed) (map big_entry [0..<401])) = 401"
  "length (filter (entry_passes shut_feed) (map big_entry [0..<401])) = 0"
  by (simp_all add: open_feed_passes shut_feed_fails)

text \<open>
  A first run over 401 new entries sends 401 messages and stores 400 identities.
\<close>

theorem seen_bounded_after_trim_witness:
  "\<exists>w1. main big_env [open_feed] empty_world = Inr (0, w1)
        \<and> length (posts w1) = 401
        \<and> length (stored (load_seen w1) ''u'') = 400
        \<and> (\<forall>u. stored (load_seen w1) u = stored (load_seen empty_world) u
                 \<or> length (stored (load_seen w1) u) \<le> 400)"
proof -
  from big_first_run [of open_feed] obtain w1 where
    1: "main big_env [open_feed] empty_world = Inr (0, w1)"
       "length (posts w1) = length (filter (entry_passes open_feed) (map big_entry [0..<401]))"
       "load_seen w1 = [''u'' \<mapsto> map big_key [1..<401]]"
    by blast
  have 2: "length (stored (load_seen w1) ''u'') = 400"
    by (simp add: 1(3) stored_def)
  note t = seen_bounded_after_trim [of big_env open_feed _ _ _ "[open_feed]" empty_world 0 w1]
  from t 1(1) have "\<forall>u. stored (load_seen w1) u = stored (load_seen empty_world) u
                 \<or> length (stored (load_seen w1) u) \<le> 400"
    by blast
  moreover have "length (posts w1) = 401"
    using 1(2) unfolding length_big_sent .
  ultimately show ?thesis
    using 1(1) 2 by (intro exI [of _ w1]) simp
qed

text \<open>
  C4 as stated fails on a feed of 401 entries with \<open>max_items\<close> 500 and no filter.
  The first run sends 401 messages and keeps 400 of the 401 identities; the second
  run over the same entries sends a message again and writes \<open>state.json\<close> again.
  (\<open>list(s)\<close> is taken in the order of insertion here; in any order one of the 401
  identities is dropped.)
\<close>

theorem second_run_resends:
  "\<exists>w1 w2. main big_env [open_feed] empty_world = Inr (0, w1)
           \<and> main big_env [open_feed] w1 = Inr (0, w2)
           \<and> length (posts w1) = 401 \<and> length (posts w2) = 402
           \<and> writes w1 = 1 \<and> writes w2 = 2"
proof -
  from big_first_run [of open_feed] obtain w1 where
    1: "main big_env [open_feed] empty_world = Inr (0, w1)"
       "length (posts w1) = length (filter (entry_passes open_feed) (map big_entry [0..<401]))"
       "writes w1 = 1"
       "load_seen w1 = [''u'' \<mapsto> map big_key [1..<401]]"
    by blast
  from big_second_run [of open_feed w1, OF _ 1(4)] obtain w2 where
    2: "main big_env [open_feed] w1 = Inr (0, w2)"
       "length (posts w2) = length (posts w1) + (if entry_passes open_feed (big_entry 0) then 1 else 0)"
       "writes w2 = writes w1 + 1"
    by blast
  have 3: "length (posts w1) = 401"
    using 1(2) unfolding length_big_sent .
  have 4: "length (posts w2) = 402"
    using 2(2) 3 by (simp add: open_feed_passes)
  show ?thesis
    using 1(1,3) 2(1,3) 3 4 by (intro exI [of _ w1] exI [of _ w2]) simp
qed

text \<open>
  C6 as stated fails on the same 401 entries under a filter that none of them passes.
  After the first run the identity of the first entry is not among those stored, so the
  second run takes the entry for a new one and, having recorded it once more, writes
  \<open>state.json\<close> again. (Whichever of the 401 identities the trim drops, it is that
  of an entry that fails the filter.)
\<close>

theorem filtered_entry_forgotten:
  "\<not> entry_passes shut_feed (big_entry 0)
   \<and> big_entry 0 \<in> set (feed_entries big_env shut_feed)
   \<and> (\<exists>w1 w2. main big_env [shut_feed] empty_world = Inr (0, w1)
          \<and> entry_key big_env (big_entry 0) \<notin> set (stored (load_seen w1) (feed_url shut_feed))
          \<and> main big_env [shut_feed] w1 = Inr (0, w2)
          \<and> writes w2 = writes w1 + 1
          \<and> posts w1 = [] \<and> posts w2 = [])"
proof -
  from big_first_run [of shut_feed] obtain w1 where
    1: "main big_env [shut_feed] empty_world = Inr (0, w1)"
       "length (posts w1) = length (filter (entry_passes shut_feed) (map big_entry [0..<401]))"
       "load_seen w1 = [''u'' \<mapsto> map big_key [1..<401]]"
    by blast
  from big_second_run [of shut_feed w1, OF _ 1(3)] obtain w2 where
    2: "main big_env [shut_feed] w1 = Inr (0, w2)"
       "length (posts w2) = length (posts w1) + (if entry_passes shut_feed (big_entry 0) then 1 else 0)"
       "writes w2 = writes w1 + 1"
    by blast
  have 3: "entry_key big_env (big_entry 0) \<notin> set (stored (load_seen w1) (feed_url shut_feed))"
    using big_key_0_new by (simp add: 1(3) shut_feed_simps stored_def entry_key_big)
  have 4: "big_entry 0 \<in> set (feed_entries big_env shut_feed)"
    by (simp add: feed_entries_big upt_401)
  have "length (posts w1) = 0"
    using 1(2) unfolding length_big_sent .
  then have 5: "posts w1 = []" "posts w2 = []"
    using 2(2) by (simp_all add: shut_feed_fails)
  show ?thesis
    using shut_feed_fails [of 0] 4 1(1) 2(1,3) 3 5 by blast
qed

lemma delivers_plain: "delivers plain_env"
  by (simp add: delivers_def creds_missing_def plain_env_def strip_u)

lemma picky_feed_url: "feed_url picky_feed = ''u''"
  by (simp add: picky_feed_def feed_url_def plain_feed_def strip_u)

lemma picky_fails: "\<not> entry_passes picky_feed outage_entry"
  by code_simp

text \<open>
  An entry that fails the filter is stored after the run, and the next run issues no
  request.
\<close>

theorem filtered_entry_stays_seen_witness:
  "\<not> entry_passes picky_feed outage_entry
   \<and> (\<exists>w1. main plain_env [picky_feed] empty_world = Inr (0, w1)
         \<and> posts w1 = []
         \<and> entry_key plain_env outage_entry \<in> set (stored (load_seen w1) ''u'')
         \<and> (\<exists>rc' w2. main refusing_env [picky_feed] w1 = Inr (rc', w2) \<and> posts w2 = posts w1))"
proof -
  have sk: "\<not> skipped plain_env picky_feed"
    by (simp add: skipped_def picky_feed_url plain_env_def)
  have fe: "feed_entries plain_env picky_feed = [outage_entry]"
    by (simp add: feed_entries_def feed_max_items_def picky_feed_def plain_feed_def
          picky_feed_url slice_to_def plain_env_def)
  have le: "load_seen empty_world = Map.empty" "posts empty_world = []"
    by (simp_all add: load_seen_def empty_world_def)
  have old: "[] = remdups (stored (load_seen empty_world) (feed_url picky_feed))"
    by (simp add: le stored_def)
  from main_single_delivers [OF delivers_plain sk old refl] obtain w1 where
    1: "main plain_env [picky_feed] empty_world = Inr (0, w1)"
       "length (posts w1) = length (posts empty_world)
          + sends plain_env picky_feed [] (feed_entries plain_env picky_feed)"
    by blast
  have 2: "posts w1 = []"
    using 1(2) picky_fails by (simp add: fe le)
  have s: "same_feeds plain_env refusing_env"
    by (simp add: same_feeds_def refusing_env_def)
  note t = filtered_entry_stays_seen [of plain_env outage_entry _ picky_feed _ "[picky_feed]"
             empty_world 0 w1 refusing_env, THEN conjunct2, THEN conjunct2, THEN conjunct2, rule_format]
  have "entry_key refusing_env outage_entry \<in> set (stored (load_seen w1) (feed_url picky_feed))
          \<and> (\<forall>st. seen_map st = load_seen w1 \<longrightarrow>
                process_entry refusing_env picky_feed outage_entry (feed_start st (feed_url picky_feed))
                  = Inr (feed_start st (feed_url picky_feed)))
          \<and> (\<exists>rc' w2. main refusing_env [picky_feed] w1 = Inr (rc', w2) \<and> posts w2 = posts w1)"
    using lists_sets_plain fits_plain [of picky_feed] 1(1) s sk fe by (intro t) simp
  moreover have "entry_key refusing_env outage_entry = entry_key plain_env outage_entry"
    by (simp add: entry_key_def refusing_env_def)
  ultimately show ?thesis
    using picky_fails 1(1) 2 by (intro conjI exI [of _ w1]) (simp_all add: picky_feed_url)
qed

end
